theory Spec2Isabelle
  imports Complex_Main "HOL-Library.Sublist"
begin

section \<open>JavaScript primitives used by \<^verbatim>\<open>src/index.ts\<close>\<close>

text \<open>
  A JavaScript string is a sequence of UTF-16 code units. The development works over
  the code units \<open>0..255\<close> (the Latin-1 block), one \<^typ>\<open>char\<close> per code unit: this
  block is closed under \<^verbatim>\<open>toLowerCase\<close>, and its white space and line terminators are
  TAB, LF, VT, FF, CR, SPACE and NBSP. Code units above 255 are outside the model.
\<close>

definition isJsWhitespace :: "char \<Rightarrow> bool" where
  "isJsWhitespace c =
     (c \<in> set [CHR 0x09, CHR 0x0A, CHR 0x0B, CHR 0x0C, CHR 0x0D, CHR 0x20, CHR 0xA0])"

text \<open>\<^verbatim>\<open>String.prototype.trim\<close>: white space is removed from both ends.\<close>

definition trim :: "string \<Rightarrow> string" where
  "trim s = rev (dropWhile isJsWhitespace (rev (dropWhile isJsWhitespace s)))"

text \<open>
  \<^verbatim>\<open>String.prototype.toLowerCase\<close> on one code unit: \<open>A..Z\<close> and the Latin-1 capitals
  \<open>0xC0..0xDE\<close> (without the multiplication sign \<open>0xD7\<close>) move up by 32, which sets bit 5.
\<close>

fun toLowerCaseChar :: "char \<Rightarrow> char" where
  "toLowerCaseChar (Char b0 b1 b2 b3 b4 b5 b6 b7) =
     (let n = (of_char (Char b0 b1 b2 b3 b4 b5 b6 b7) :: nat) in
      if (65 \<le> n \<and> n \<le> 90) \<or> (192 \<le> n \<and> n \<le> 222 \<and> n \<noteq> 215)
      then Char b0 b1 b2 b3 b4 True b6 b7
      else Char b0 b1 b2 b3 b4 b5 b6 b7)"

definition toLowerCase :: "string \<Rightarrow> string" where
  "toLowerCase s = map toLowerCaseChar s"

text \<open>\<^verbatim>\<open>startsWith\<close>, \<^verbatim>\<open>endsWith\<close> and \<^verbatim>\<open>includes\<close> (here \<open>includes_str\<close>) with a search string.\<close>

definition startsWith :: "string \<Rightarrow> string \<Rightarrow> bool" where
  "startsWith s p = (take (length p) s = p)"

definition endsWith :: "string \<Rightarrow> string \<Rightarrow> bool" where
  "endsWith s p = (length p \<le> length s \<and> drop (length s - length p) s = p)"

fun includes_str :: "string \<Rightarrow> string \<Rightarrow> bool" where
  "includes_str [] p = (p = [])"
| "includes_str (c # cs) p = (startsWith (c # cs) p \<or> includes_str cs p)"

text \<open>
  \<^verbatim>\<open>path.basename\<close> of Node.js, POSIX flavour, with no suffix argument: trailing
  slashes are dropped, then the part after the last remaining slash is returned (the
  empty string when the path has no other character than slashes).
\<close>

definition basename :: "string \<Rightarrow> string" where
  "basename p =
     rev (takeWhile (\<lambda>c. c \<noteq> CHR ''/'') (dropWhile (\<lambda>c. c = CHR ''/'') (rev p)))"

text \<open>
  \<^verbatim>\<open>Array.prototype.join\<close> on strings, and the unique values of a list in the order a
  JavaScript \<^verbatim>\<open>Set\<close> keeps them (\<^verbatim>\<open>[...new Set(xs)]\<close>): first insertion wins.
\<close>

fun joinWith :: "string \<Rightarrow> string list \<Rightarrow> string" where
  "joinWith sep [] = []"
| "joinWith sep [x] = x"
| "joinWith sep (x # y # ys) = x @ sep @ joinWith sep (y # ys)"

definition setAdd :: "'a list \<Rightarrow> 'a \<Rightarrow> 'a list" where
  "setAdd acc v = (if v \<in> set acc then acc else acc @ [v])"

definition setValues :: "'a list \<Rightarrow> 'a list" where
  "setValues xs = foldl setAdd [] xs"

text \<open>
  The regular expression \<^verbatim>\<open>/^\/compact\b[ \t]*(.*)$/is\<close> of line 317. Under the \<open>i\<close> flag
  (without \<open>u\<close>) a code unit matches an ASCII letter of the pattern when both have the
  same upper-case form, and no code unit outside ASCII is folded onto an ASCII one, so
  only \<open>a..z\<close> are folded here. \<^verbatim>\<open>\b\<close> after the final \<open>t\<close> holds at the end of the input
  or before a code unit that is not a word character \<open>[A-Za-z0-9_]\<close>. With the \<open>s\<close> flag
  \<^verbatim>\<open>(.*)$\<close> takes all the rest, after the longest run of blanks and tabs. The result
  is capture group 1, or \<open>None\<close> when the expression does not match.
\<close>

fun asciiUpperChar :: "char \<Rightarrow> char" where
  "asciiUpperChar (Char b0 b1 b2 b3 b4 b5 b6 b7) =
     (let n = (of_char (Char b0 b1 b2 b3 b4 b5 b6 b7) :: nat) in
      if 97 \<le> n \<and> n \<le> 122 then Char b0 b1 b2 b3 b4 False b6 b7
      else Char b0 b1 b2 b3 b4 b5 b6 b7)"

definition isWordChar :: "char \<Rightarrow> bool" where
  "isWordChar c =
     (let n = (of_char c :: nat) in
      (48 \<le> n \<and> n \<le> 57) \<or> (65 \<le> n \<and> n \<le> 90) \<or> n = 95 \<or> (97 \<le> n \<and> n \<le> 122))"

definition matchCompactCommand :: "string \<Rightarrow> string option" where
  "matchCompactCommand s =
     (if length s \<ge> 8
         \<and> map asciiUpperChar (take 8 s) = map asciiUpperChar ''/compact''
         \<and> (case drop 8 s of [] \<Rightarrow> True | c # _ \<Rightarrow> \<not> isWordChar c)
      then Some (dropWhile (\<lambda>c. c = CHR 0x20 \<or> c = CHR 0x09) (drop 8 s))
      else None)"

section \<open>Data model\<close>

text \<open>
  A value of type \<^verbatim>\<open>unknown\<close> in a tool call's argument record, as JSON has it.
\<close>

datatype jsvalue =
    JNull
  | JBool bool
  | JNumber real
  | JString string
  | JArray "jsvalue list"
  | JObject "(string \<times> jsvalue) list"

text \<open>
  \<^verbatim>\<open>LlmContentBlock\<close> and \<^verbatim>\<open>LlmMessage\<close> (lines 177-190): every field is optional, and
  \<open>None\<close> stands for a field that is missing or not of the declared type. The fields
  carry a prefix because record fields are global names.
\<close>

record LlmContentBlock =
  block_type :: "string option"
  block_text :: "string option"
  block_id :: "string option"
  block_name :: "string option"
  block_arguments :: "(string \<rightharpoonup> jsvalue) option"

record LlmMessage =
  msg_role :: "string option"
  msg_content :: "LlmContentBlock list option"
  msg_isError :: "bool option"
  msg_toolCallId :: "string option"

record ToolCallInfo =
  tc_name :: string
  tc_args :: "string \<rightharpoonup> jsvalue"

record DetectedFileOps =
  modifiedFiles :: "string list"
  deletedFiles :: "string list"

section \<open>Conversation analysis\<close>

text \<open>\<^verbatim>\<open>uniqStrings\<close>, lines 252-254: trim, drop the empty strings, keep first occurrences.\<close>

definition uniqStrings :: "string list \<Rightarrow> string list" where
  "uniqStrings values = setValues (filter (\<lambda>v. v \<noteq> []) (map trim values))"

text \<open>\<^verbatim>\<open>extractTextFromLlmMessageContent\<close>, lines 256-275.\<close>

definition blockText :: "LlmContentBlock \<Rightarrow> string" where
  "blockText b =
     (if block_type b \<noteq> Some ''text'' then []
      else (case block_text b of Some t \<Rightarrow> t | None \<Rightarrow> []))"

definition extractTextFromLlmMessageContent :: "LlmContentBlock list option \<Rightarrow> string" where
  "extractTextFromLlmMessageContent content =
     (case content of
        None \<Rightarrow> []
      | Some blocks \<Rightarrow>
          trim (joinWith [CHR 0x0A] (filter (\<lambda>t. t \<noteq> []) (map blockText blocks))))"

text \<open>
  \<^verbatim>\<open>extractUserCompactionNote\<close>, lines 304-327. \<open>noteLoop\<close> is the \<^verbatim>\<open>for\<close> loop over the
  reversed user messages: \<^verbatim>\<open>continue\<close> is the recursive call, \<^verbatim>\<open>return\<close> ends it.
\<close>

fun noteLoop :: "LlmMessage list \<Rightarrow> string option" where
  "noteLoop [] = None"
| "noteLoop (msg # reversed) =
     (let text = extractTextFromLlmMessageContent (msg_content msg) in
      if text = [] then noteLoop reversed
      else
        let trimmed = trim text in
        (case matchCompactCommand trimmed of
           None \<Rightarrow> noteLoop reversed
         | Some group1 \<Rightarrow>
             (let note = trim group1 in
              if length note > 0 then Some note else None)))"

definition extractUserCompactionNote :: "LlmMessage list \<Rightarrow> string option" where
  "extractUserCompactionNote llmMessages =
     (let userMessages = filter (\<lambda>m. msg_role m = Some ''user'') llmMessages;
          reversed = rev userMessages
      in noteLoop reversed)"

text \<open>
  \<^verbatim>\<open>extractToolCallsFromMessages\<close>, lines 350-374: the inner loop over the blocks of one
  message, the outer loop over the messages, on a \<^verbatim>\<open>Map\<close> that starts empty.
\<close>

definition indexBlock :: "(string \<rightharpoonup> ToolCallInfo) \<Rightarrow> LlmContentBlock \<Rightarrow> (string \<rightharpoonup> ToolCallInfo)" where
  "indexBlock toolCallsById block =
     (if block_type block \<noteq> Some ''toolCall'' then toolCallsById
      else
        (case (block_id block, block_name block) of
           (Some i, Some n) \<Rightarrow>
             toolCallsById(i \<mapsto>
               \<lparr>tc_name = n,
                tc_args = (case block_arguments block of Some a \<Rightarrow> a | None \<Rightarrow> Map.empty)\<rparr>)
         | _ \<Rightarrow> toolCallsById))"

definition indexMessage :: "(string \<rightharpoonup> ToolCallInfo) \<Rightarrow> LlmMessage \<Rightarrow> (string \<rightharpoonup> ToolCallInfo)" where
  "indexMessage toolCallsById msg =
     (if msg_role msg \<noteq> Some ''assistant'' then toolCallsById
      else foldl indexBlock toolCallsById
             (case msg_content msg of Some blocks \<Rightarrow> blocks | None \<Rightarrow> []))"

definition extractToolCallsFromMessages :: "LlmMessage list \<Rightarrow> (string \<rightharpoonup> ToolCallInfo)" where
  "extractToolCallsFromMessages llmMessages = foldl indexMessage Map.empty llmMessages"

text \<open>\<^verbatim>\<open>extractModifiedPathFromToolResult\<close>, lines 376-396.\<close>

definition extractModifiedPathFromToolResult ::
    "LlmMessage \<Rightarrow> (string \<rightharpoonup> ToolCallInfo) \<Rightarrow> string option" where
  "extractModifiedPathFromToolResult msg toolCallsById =
     (case msg_toolCallId msg of
        None \<Rightarrow> None
      | Some toolCallId \<Rightarrow>
          (case toolCallsById toolCallId of
             None \<Rightarrow> None
           | Some toolCall \<Rightarrow>
               if tc_name toolCall \<noteq> ''write'' \<and> tc_name toolCall \<noteq> ''edit'' then None
               else (case tc_args toolCall ''path'' of
                       Some (JString p) \<Rightarrow> Some p
                     | _ \<Rightarrow> None)))"

text \<open>
  \<^verbatim>\<open>detectFileOpsFromConversation\<close>, lines 398-425. \<open>collectModified\<close> is the loop of
  lines 405-414 with the array \<^verbatim>\<open>modifiedFiles\<close> as accumulator; a path is pushed when
  it is truthy, that is, not the empty string. Nothing is ever pushed to
  \<^verbatim>\<open>deletedFiles\<close>.
\<close>

fun collectModified ::
    "(string \<rightharpoonup> ToolCallInfo) \<Rightarrow> LlmMessage list \<Rightarrow> string list \<Rightarrow> string list" where
  "collectModified toolCallsById [] acc = acc"
| "collectModified toolCallsById (msg # rest) acc =
     (if msg_role msg \<noteq> Some ''toolResult'' \<or> msg_isError msg = Some True
      then collectModified toolCallsById rest acc
      else
        (case extractModifiedPathFromToolResult msg toolCallsById of
           Some modifiedPath \<Rightarrow>
             if modifiedPath \<noteq> [] then collectModified toolCallsById rest (acc @ [modifiedPath])
             else collectModified toolCallsById rest acc
         | None \<Rightarrow> collectModified toolCallsById rest acc))"

definition detectFileOpsFromConversation :: "LlmMessage list \<Rightarrow> DetectedFileOps" where
  "detectFileOpsFromConversation llmMessages =
     (let toolCallsById = extractToolCallsFromMessages llmMessages;
          collected = collectModified toolCallsById llmMessages [];
          deletedFilesArr = [];
          deleted = uniqStrings deletedFilesArr;
          modified = filter (\<lambda>p. p \<notin> set deleted) (uniqStrings collected)
      in \<lparr>modifiedFiles = modified, deletedFiles = deleted\<rparr>)"

section \<open>Temp-artifact classification\<close>

text \<open>\<^verbatim>\<open>isLikelyTempArtifactPath\<close>, lines 329-348.\<close>

definition isLikelyTempArtifactPath :: "string \<Rightarrow> bool" where
  "isLikelyTempArtifactPath filePath =
     (let normalized = trim filePath in
      if normalized = [] then False
      else
        let base = toLowerCase (basename normalized) in
        if startsWith base ''__tmp'' then True
        else if endsWith base ''.tmp'' then True
        else if includes_str base ''.tmp.'' then True
        else False)"

section \<open>Configuration and model selection\<close>

text \<open>
  A JavaScript number: a finite value, or one of the three special values. Finite
  doubles are taken as reals; \<^verbatim>\<open>Math.floor\<close>, \<^verbatim>\<open>Math.max\<close>, \<^verbatim>\<open>Math.min\<close> and the
  comparisons are exact on them. \<^verbatim>\<open>Math.max\<close> and \<^verbatim>\<open>Math.min\<close> return \<open>NaN\<close> as soon as
  one argument is \<open>NaN\<close>, and every comparison with \<open>NaN\<close> is false.
\<close>

datatype jsnumber = Num real | PosInfinity | NegInfinity | NaN

fun mathFloor :: "jsnumber \<Rightarrow> jsnumber" where
  "mathFloor (Num x) = Num (of_int \<lfloor>x\<rfloor>)"
| "mathFloor PosInfinity = PosInfinity"
| "mathFloor NegInfinity = NegInfinity"
| "mathFloor NaN = NaN"

fun jsLess :: "jsnumber \<Rightarrow> jsnumber \<Rightarrow> bool" where
  "jsLess NaN _ = False"
| "jsLess _ NaN = False"
| "jsLess (Num x) (Num y) = (x < y)"
| "jsLess (Num x) PosInfinity = True"
| "jsLess (Num x) NegInfinity = False"
| "jsLess PosInfinity _ = False"
| "jsLess NegInfinity NegInfinity = False"
| "jsLess NegInfinity _ = True"

fun mathMax :: "jsnumber \<Rightarrow> jsnumber \<Rightarrow> jsnumber" where
  "mathMax NaN _ = NaN"
| "mathMax _ NaN = NaN"
| "mathMax a b = (if jsLess a b then b else a)"

fun mathMin :: "jsnumber \<Rightarrow> jsnumber \<Rightarrow> jsnumber" where
  "mathMin NaN _ = NaN"
| "mathMin _ NaN = NaN"
| "mathMin a b = (if jsLess b a then b else a)"

text \<open>
  \<^verbatim>\<open>ToIntegerOrInfinity\<close> followed by the clamping of \<^verbatim>\<open>ToLength\<close> (for the \<^verbatim>\<open>length\<close> of
  \<^verbatim>\<open>Array.from({ length })\<close>): \<open>NaN\<close> and everything below 1 give 0, the upper bound is
  \<open>2^53 - 1\<close>.
\<close>

fun toLength :: "jsnumber \<Rightarrow> nat" where
  "toLength (Num x) = min (nat \<lfloor>x\<rfloor>) (2 ^ 53 - 1)"
| "toLength PosInfinity = 2 ^ 53 - 1"
| "toLength NegInfinity = 0"
| "toLength NaN = 0"

text \<open>
  \<^verbatim>\<open>s.slice(0, end)\<close>, of a string and of an array alike: \<open>end\<close> is truncated towards zero
  (\<open>NaN\<close> counts as 0), a negative integer counts from the end, and the result never
  exceeds the sequence.
\<close>

definition truncateReal :: "real \<Rightarrow> int" where
  "truncateReal x = (if x < 0 then - \<lfloor>- x\<rfloor> else \<lfloor>x\<rfloor>)"

fun sliceFromStart :: "'a list \<Rightarrow> jsnumber \<Rightarrow> 'a list" where
  "sliceFromStart s (Num x) =
     (if truncateReal x < 0 then take (length s - nat (- truncateReal x)) s
      else take (nat (truncateReal x)) s)"
| "sliceFromStart s PosInfinity = s"
| "sliceFromStart s NegInfinity = []"
| "sliceFromStart s NaN = []"

text \<open>The configuration, lines 32-57. \<^verbatim>\<open>CONFIG\<close> is passed to the functions that read it.\<close>

datatype ThinkingLevel = Off | Minimal | Low | Medium | High | XHigh

record CompactionModelConfig =
  cm_provider :: string
  cm_id :: string
  cm_thinkingLevel :: "ThinkingLevel option"

record ExtensionConfig =
  compactionModels :: "CompactionModelConfig list"
  thinkingLevel :: ThinkingLevel
  debugCompactions :: bool
  toolResultMaxChars :: jsnumber
  toolCallPreviewChars :: jsnumber
  toolCallConcurrency :: jsnumber
  minSummaryChars :: jsnumber

text \<open>
  \<^verbatim>\<open>parsePositiveNumber\<close> and \<^verbatim>\<open>parsePositiveInt\<close>, lines 97-105, on a value that is a
  number (\<open>Some\<close>) or not (\<open>None\<close>).
\<close>

definition parsePositiveNumber :: "jsnumber option \<Rightarrow> jsnumber \<Rightarrow> jsnumber" where
  "parsePositiveNumber v defaultValue =
     (case v of Some n \<Rightarrow> if jsLess (Num 0) n then n else defaultValue | None \<Rightarrow> defaultValue)"

definition parsePositiveInt :: "jsnumber option \<Rightarrow> jsnumber \<Rightarrow> jsnumber" where
  "parsePositiveInt v defaultValue =
     (case v of
        Some n \<Rightarrow> if jsLess (Num 0) n then mathFloor n else defaultValue
      | None \<Rightarrow> defaultValue)"

text \<open>
  The registry, lines 226-229. A model is known by its provider and id; \<^verbatim>\<open>getApiKey\<close>
  resolves to a string or to \<^verbatim>\<open>undefined\<close> (\<open>None\<close>).
\<close>

record Model =
  model_provider :: string
  model_id :: string
  model_name :: string

record ModelRegistry =
  getAll :: "Model list"
  getApiKey :: "Model \<Rightarrow> string option"

record ModelSelection =
  sel_model :: Model
  sel_apiKey :: string
  sel_thinkingLevel :: ThinkingLevel

text \<open>
  \<^verbatim>\<open>selectCompactionModel\<close>, lines 498-540. \<open>candidateLoop\<close> is the loop over
  \<^verbatim>\<open>CONFIG.compactionModels\<close>; \<^verbatim>\<open>!key\<close> holds for \<^verbatim>\<open>undefined\<close> and for the empty string.
\<close>

fun candidateLoop ::
    "ExtensionConfig \<Rightarrow> ModelRegistry \<Rightarrow> CompactionModelConfig list \<Rightarrow> ModelSelection option" where
  "candidateLoop config modelRegistry [] = None"
| "candidateLoop config modelRegistry (cfg # rest) =
     (case find (\<lambda>m. model_provider m = cm_provider cfg \<and> model_id m = cm_id cfg)
             (getAll modelRegistry) of
        None \<Rightarrow> candidateLoop config modelRegistry rest
      | Some registryModel \<Rightarrow>
          (case getApiKey modelRegistry registryModel of
             None \<Rightarrow> candidateLoop config modelRegistry rest
           | Some key \<Rightarrow>
               if key = [] then candidateLoop config modelRegistry rest
               else Some \<lparr>sel_model = registryModel, sel_apiKey = key,
                          sel_thinkingLevel =
                            (case cm_thinkingLevel cfg of
                               Some t \<Rightarrow> t | None \<Rightarrow> thinkingLevel config)\<rparr>))"

definition selectCompactionModel ::
    "ExtensionConfig \<Rightarrow> ModelRegistry \<Rightarrow> Model option \<Rightarrow> ModelSelection option" where
  "selectCompactionModel config modelRegistry sessionModel =
     (case candidateLoop config modelRegistry (compactionModels config) of
        Some selection \<Rightarrow> Some selection
      | None \<Rightarrow>
          (case sessionModel of
             None \<Rightarrow> None
           | Some sm \<Rightarrow>
               (case getApiKey modelRegistry sm of
                  None \<Rightarrow> None
                | Some key \<Rightarrow>
                    if key = [] then None
                    else Some \<lparr>sel_model = sm, sel_apiKey = key,
                               sel_thinkingLevel = thinkingLevel config\<rparr>)))"

section \<open>The bounded-concurrency runner\<close>

text \<open>
  A thrown value is an \<^verbatim>\<open>Error\<close> with its message, or another value with its
  \<^verbatim>\<open>String(...)\<close> form. A \<^verbatim>\<open>TypeError\<close> of the engine is an \<^verbatim>\<open>Error\<close>; its message is the
  engine's and is kept here without the quotation marks.
\<close>

datatype thrown = ErrorObject string | OtherThrown string

text \<open>
  What a call of the mapper does: it throws before it returns a promise, or it returns
  a promise that rejects, or one that fulfils with a value.
\<close>

datatype 'u mapped = Throws thrown | Rejects thrown | Fulfils 'u

text \<open>
  \<^verbatim>\<open>mapWithConcurrency\<close>, lines 277-302. JavaScript runs one continuation at a time, so a
  run is a sequence of atomic steps on the shared variables: \<^verbatim>\<open>nextIndex\<close>, the array
  \<^verbatim>\<open>results\<close> (\<open>None\<close> is a slot that is still \<^verbatim>\<open>undefined\<close>), and, for every worker that
  is suspended at its \<^verbatim>\<open>await\<close>, the index it has claimed (\<open>pending\<close>, in the order of the
  workers). \<open>invoked\<close> is a log of the indices the mapper has been called with, in call
  order, and \<open>rejected\<close> is the reason of the first worker promise that rejected, which is
  the reason \<^verbatim>\<open>Promise.all\<close> rejects with; the source keeps neither.

  The mapper is a function of the item and the index; a mapper that changes \<^verbatim>\<open>items\<close> is
  outside the model.
\<close>

record 'u runner =
  nextIndex :: nat
  results :: "'u option list"
  pending :: "nat list"
  invoked :: "nat list"
  rejected :: "thrown option"

text \<open>A worker promise rejects: \<^verbatim>\<open>Promise.all\<close> keeps the first reason.\<close>

definition reject :: "thrown \<Rightarrow> 'u runner \<Rightarrow> 'u runner" where
  "reject e s = (if rejected s = None then s\<lparr>rejected := Some e\<rparr> else s)"

text \<open>
  A worker starts (the call \<^verbatim>\<open>worker()\<close> up to its first \<^verbatim>\<open>await\<close>): if an index is left
  it claims it, advances the cursor and calls the mapper; it suspends on the promise the
  mapper returns, and its own promise rejects at once if the mapper throws. With no
  index left it ends.
\<close>

definition startWorker :: "'a list \<Rightarrow> ('a \<Rightarrow> nat \<Rightarrow> 'u mapped) \<Rightarrow> 'u runner \<Rightarrow> 'u runner" where
  "startWorker items mapper s =
     (if nextIndex s < length items
      then
        (let currentIndex = nextIndex s;
             s1 = s\<lparr>nextIndex := nextIndex s + 1, invoked := invoked s @ [currentIndex]\<rparr>
         in case mapper (items ! currentIndex) currentIndex of
              Throws e \<Rightarrow> reject e s1
            | _ \<Rightarrow> s1\<lparr>pending := pending s1 @ [currentIndex]\<rparr>)
      else s)"

text \<open>
  The promise of the \<open>k\<close>-th suspended worker settles. If it rejects, the \<^verbatim>\<open>await\<close> throws
  and the worker's promise rejects. If it fulfils, the worker stores the value in the
  slot of its claimed index (an index below \<^verbatim>\<open>items.length\<close>, since it was claimed under
  the loop condition), tests the loop condition again, and either claims the next index
  and calls the mapper on it, as a starting worker does, or ends. (No worker is
  suspended on a call that threw; that case is listed with the rejection.)
\<close>

definition settle ::
    "'a list \<Rightarrow> ('a \<Rightarrow> nat \<Rightarrow> 'u mapped) \<Rightarrow> nat \<Rightarrow> 'u runner \<Rightarrow> 'u runner" where
  "settle items mapper k s =
     (let currentIndex = pending s ! k;
          others = take k (pending s) @ drop (Suc k) (pending s)
      in case mapper (items ! currentIndex) currentIndex of
           Fulfils v \<Rightarrow>
             (let s1 = s\<lparr>results := (results s)[currentIndex := Some v]\<rparr>
              in if nextIndex s1 < length items
                 then
                   (let claimed = nextIndex s1;
                        s2 = s1\<lparr>nextIndex := nextIndex s1 + 1,
                                invoked := invoked s1 @ [claimed]\<rparr>
                    in case mapper (items ! claimed) claimed of
                         Throws e \<Rightarrow> reject e (s2\<lparr>pending := others\<rparr>)
                       | _ \<Rightarrow> s2\<lparr>pending := (pending s2)[k := claimed]\<rparr>)
                 else s1\<lparr>pending := others\<rparr>)
         | Rejects e \<Rightarrow> reject e (s\<lparr>pending := others\<rparr>)
         | Throws e \<Rightarrow> reject e (s\<lparr>pending := others\<rparr>))"

text \<open>
  The order in which the promises settle is the schedule: each entry picks one of the
  suspended workers (its position, modulo their number). When the schedule is used up,
  the remaining promises settle in the order of the workers. \<^verbatim>\<open>Promise.all\<close> resolves when
  no worker is left, and rejects as soon as one worker promise has rejected: the run
  the caller sees ends there, and what the workers still suspended do later is not part
  of it.
\<close>

function drain :: "'a list \<Rightarrow> ('a \<Rightarrow> nat \<Rightarrow> 'u mapped) \<Rightarrow> 'u runner \<Rightarrow> 'u runner" where
  "drain items mapper s =
     (if pending s = [] \<or> rejected s \<noteq> None then s
      else drain items mapper (settle items mapper 0 s))"
  by pat_completeness auto
termination
  by (relation "measure (\<lambda>(items, mapper, s). (length items - nextIndex s) + length (pending s))")
     (auto simp: settle_def reject_def Let_def neq_Nil_conv split: mapped.splits)

text \<open>
  The equation of \<open>drain\<close> mentions \<open>drain\<close> on its right-hand side; it is unfolded by
  hand.
\<close>

declare drain.simps [simp del]

fun runSchedule ::
    "'a list \<Rightarrow> ('a \<Rightarrow> nat \<Rightarrow> 'u mapped) \<Rightarrow> nat list \<Rightarrow> 'u runner \<Rightarrow> 'u runner" where
  "runSchedule items mapper [] s = drain items mapper s"
| "runSchedule items mapper (k # ks) s =
     (if pending s = [] \<or> rejected s \<noteq> None then s
      else runSchedule items mapper ks (settle items mapper (k mod length (pending s)) s))"

text \<open>
  The function resolves to the array \<^verbatim>\<open>results\<close>, or rejects; the model returns the log of
  mapper calls with either.
\<close>

definition mapWithConcurrency ::
    "nat list \<Rightarrow> 'a list \<Rightarrow> jsnumber \<Rightarrow> ('a \<Rightarrow> nat \<Rightarrow> 'u mapped)
       \<Rightarrow> (thrown + 'u option list) \<times> nat list" where
  "mapWithConcurrency schedule items concurrency mapper =
     (if length items = 0 then (Inr [], [])
      else
        let effectiveConcurrency = mathMax (Num 1) (mathFloor concurrency);
            s0 = \<lparr>nextIndex = 0, results = replicate (length items) None, pending = [],
                  invoked = [], rejected = None\<rparr>;
            workerCount = toLength (mathMin effectiveConcurrency (Num (real (length items))));
            s1 = (startWorker items mapper ^^ workerCount) s0;
            s2 = runSchedule items mapper schedule s1
        in (case rejected s2 of Some e \<Rightarrow> Inl e | None \<Rightarrow> Inr (results s2), invoked s2))"
section \<open>Tool execution\<close>

text \<open>
  The shell interpreter of \<^verbatim>\<open>just-bash\<close> is outside the repository: \<^verbatim>\<open>new Bash({ files }).exec(command)\<close>
  is a parameter that, for the files and the value it is passed as the command (\<open>None\<close>
  is \<^verbatim>\<open>undefined\<close>), either throws or resolves to the standard output, the standard error
  and the exit code.
\<close>

record ExecResult =
  stdout :: string
  stderr :: string
  exitCode :: int

type_synonym bashFiles = "string \<rightharpoonup> string"

type_synonym bashExec = "bashFiles \<Rightarrow> jsvalue option \<Rightarrow> thrown + ExecResult"

text \<open>
  \<^verbatim>\<open>ToolCallContent\<close> (lines 202-207), as \<^verbatim>\<open>isToolCallContent\<close> (lines 480-486) lets it
  through: the guard tests the field \<^verbatim>\<open>type\<close> only, so \<^verbatim>\<open>id\<close>, \<^verbatim>\<open>name\<close> and \<^verbatim>\<open>arguments\<close> are
  whatever the response holds. For \<^verbatim>\<open>id\<close> and \<^verbatim>\<open>name\<close>, \<open>None\<close> is a missing field. For
  \<^verbatim>\<open>arguments\<close>, \<open>None\<close> is \<^verbatim>\<open>undefined\<close> or \<^verbatim>\<open>null\<close>; any other value is given by its
  properties (a value that is not an object has none named \<^verbatim>\<open>command\<close>).
  \<^verbatim>\<open>ToolCallExecResult\<close> is lines 197-200.
\<close>

record ToolCallContent =
  tcc_id :: "jsvalue option"
  tcc_name :: "jsvalue option"
  tcc_arguments :: "(string \<rightharpoonup> jsvalue) option"

record ToolCallExecResult =
  result :: string
  isError :: bool

text \<open>
  \<^verbatim>\<open>const { command } = tc.arguments\<close> (lines 728 and 761): destructuring \<^verbatim>\<open>undefined\<close> or
  \<^verbatim>\<open>null\<close> throws a \<^verbatim>\<open>TypeError\<close>; a property that is missing reads as \<^verbatim>\<open>undefined\<close>.
\<close>

definition commandOf :: "ToolCallContent \<Rightarrow> thrown + jsvalue option" where
  "commandOf tc =
     (case tcc_arguments tc of
        None \<Rightarrow> Inl (ErrorObject ''Cannot destructure property command of tc.arguments'')
      | Some arguments \<Rightarrow> Inr (arguments ''command''))"

text \<open>The decimal form of an integer, as a template literal prints the exit code.\<close>

definition digitChar :: "nat \<Rightarrow> char" where
  "digitChar d = ''0123456789'' ! d"

function decimal :: "nat \<Rightarrow> string" where
  "decimal n = (if n < 10 then [digitChar n] else decimal (n div 10) @ [digitChar (n mod 10)])"
  by pat_completeness auto
termination
  by (relation "measure (\<lambda>n. n)") auto

declare decimal.simps [simp del]

definition intToString :: "int \<Rightarrow> string" where
  "intToString i = (if i < 0 then CHR ''-'' # decimal (nat (- i)) else decimal (nat i))"

text \<open>
  \<^verbatim>\<open>executeSingleToolCall\<close>, lines 724-750. The function is \<^verbatim>\<open>async\<close>: \<open>Inl\<close> is a promise
  that rejects, which only the destructuring of line 728 can cause, since it stands
  before the \<^verbatim>\<open>try\<close>. Of the interpreter's outcome, \<open>Inr\<close> is the \<^verbatim>\<open>try\<close> block and \<open>Inl\<close> the
  \<^verbatim>\<open>catch\<close> block.
\<close>

definition executeSingleToolCall ::
    "ExtensionConfig \<Rightarrow> bashExec \<Rightarrow> ToolCallContent \<Rightarrow> bashFiles \<Rightarrow> thrown + ToolCallExecResult" where
  "executeSingleToolCall config exec tc files =
     (case commandOf tc of
        Inl error \<Rightarrow> Inl error
      | Inr command \<Rightarrow>
          (case exec files command of
             Inr r \<Rightarrow>
               (let result0 = stdout r @ (if stderr r \<noteq> [] then CHR 0x0A # ''stderr: '' @ stderr r else []);
                    result1 = (if exitCode r \<noteq> 0
                               then result0 @ CHR 0x0A # ''exit code: '' @ intToString (exitCode r)
                               else result0);
                    isError1 = (exitCode r \<noteq> 0)
                in Inr \<lparr>result = sliceFromStart result1 (toolResultMaxChars config),
                        isError = isError1\<rparr>)
           | Inl error \<Rightarrow>
               (let errorMessage = (case error of ErrorObject m \<Rightarrow> m | OtherThrown s \<Rightarrow> s)
                in Inr \<lparr>result = ''Error: '' @ errorMessage, isError = True\<rparr>)))"

text \<open>
  The notification of a call, lines 762-764. \<^verbatim>\<open>command.slice\<close> exists on a string and on an
  array; reading it from \<^verbatim>\<open>undefined\<close> or \<^verbatim>\<open>null\<close> throws a \<^verbatim>\<open>TypeError\<close>, and so does calling
  it on any other value of a response, where it is not a function. The message is the
  template literal \<^verbatim>\<open>`${tc.name}: ${preview}${suffix}`\<close>; the model keeps the three values
  the template prints instead of the printed text.
\<close>

record Notification =
  note_name :: "jsvalue option"
  note_preview :: jsvalue
  note_suffix :: string

definition previewOf :: "ExtensionConfig \<Rightarrow> jsvalue option \<Rightarrow> thrown + jsvalue \<times> string" where
  "previewOf config command =
     (case command of
        None \<Rightarrow> Inl (ErrorObject ''Cannot read properties of undefined (reading slice)'')
      | Some JNull \<Rightarrow> Inl (ErrorObject ''Cannot read properties of null (reading slice)'')
      | Some (JString s) \<Rightarrow>
          Inr (JString (sliceFromStart s (toolCallPreviewChars config)),
               if jsLess (toolCallPreviewChars config) (Num (real (length s)))
               then ''...'' else [])
      | Some (JArray xs) \<Rightarrow>
          Inr (JArray (sliceFromStart xs (toolCallPreviewChars config)),
               if jsLess (toolCallPreviewChars config) (Num (real (length xs)))
               then ''...'' else [])
      | Some _ \<Rightarrow> Inl (ErrorObject ''command.slice is not a function''))"

definition notificationOf :: "ExtensionConfig \<Rightarrow> ToolCallContent \<Rightarrow> thrown + Notification" where
  "notificationOf config tc =
     (case commandOf tc of
        Inl error \<Rightarrow> Inl error
      | Inr command \<Rightarrow>
          (case previewOf config command of
             Inl error \<Rightarrow> Inl error
           | Inr (preview, ellipsis) \<Rightarrow>
               Inr \<lparr>note_name = tcc_name tc, note_preview = preview, note_suffix = ellipsis\<rparr>))"

text \<open>
  The mapper of \<^verbatim>\<open>executeToolCalls\<close>, lines 760-767. It is not an \<^verbatim>\<open>async\<close> function and has
  no \<^verbatim>\<open>try\<close>: what the destructuring, \<^verbatim>\<open>command.slice\<close> or \<^verbatim>\<open>notifyFn\<close> throw, the mapper
  throws. \<^verbatim>\<open>notifyFn\<close> is a parameter that returns (\<open>None\<close>) or throws.
\<close>

definition toolCallMapper ::
    "ExtensionConfig \<Rightarrow> bashExec \<Rightarrow> bashFiles \<Rightarrow> (Notification \<Rightarrow> thrown option)
       \<Rightarrow> ToolCallContent \<Rightarrow> nat \<Rightarrow> ToolCallExecResult mapped" where
  "toolCallMapper config exec files notifyFn tc index =
     (case notificationOf config tc of
        Inl error \<Rightarrow> Throws error
      | Inr note \<Rightarrow>
          (case notifyFn note of
             Some error \<Rightarrow> Throws error
           | None \<Rightarrow>
               (case executeSingleToolCall config exec tc files of
                  Inl error \<Rightarrow> Rejects error
                | Inr r \<Rightarrow> Fulfils r)))"

text \<open>
  \<^verbatim>\<open>executeToolCalls\<close>, lines 752-769. The calls of \<^verbatim>\<open>notifyFn\<close> come in the order of the
  mapper calls, which the runner logs; a mapper call that throws before line 764 makes
  none.
\<close>

definition notified :: "ExtensionConfig \<Rightarrow> ToolCallContent list \<Rightarrow> nat list \<Rightarrow> Notification list" where
  "notified config toolCalls called =
     concat (map (\<lambda>i. case notificationOf config (toolCalls ! i) of
                          Inl error \<Rightarrow> [] | Inr note \<Rightarrow> [note]) called)"

definition executeToolCalls ::
    "ExtensionConfig \<Rightarrow> bashExec \<Rightarrow> nat list \<Rightarrow> ToolCallContent list \<Rightarrow> bashFiles
       \<Rightarrow> (Notification \<Rightarrow> thrown option)
       \<Rightarrow> (thrown + ToolCallExecResult option list) \<times> Notification list" where
  "executeToolCalls config exec schedule toolCalls files notifyFn =
     (let (outcome, called) =
            mapWithConcurrency schedule toolCalls (toolCallConcurrency config)
              (toolCallMapper config exec files notifyFn)
      in (outcome, notified config toolCalls called))"
section \<open>The agent loop\<close>

text \<open>
  The elements of \<^verbatim>\<open>response.content\<close>, as the guards \<^verbatim>\<open>isToolCallContent\<close> and
  \<^verbatim>\<open>isTextContent\<close> (lines 480-492) tell them apart, by the field \<^verbatim>\<open>type\<close> alone: a tool
  call, a text block, or anything else (\<open>ThinkingContent\<close>, a thinking block for one).
  The field \<^verbatim>\<open>text\<close> of a text block is used by \<^verbatim>\<open>join\<close> only, and is given by what \<^verbatim>\<open>join\<close>
  makes of it: \<open>None\<close> is \<^verbatim>\<open>undefined\<close> or \<^verbatim>\<open>null\<close>, which \<^verbatim>\<open>join\<close> prints as the empty string,
  and \<open>Some s\<close> is the string \<open>s\<close> or a value whose string form is \<open>s\<close>. The messages of
  the transcript follow (usage data and time stamps are left out); a tool-result message
  holds \<^verbatim>\<open>toolCallId\<close>, \<^verbatim>\<open>toolName\<close>, the text and \<^verbatim>\<open>isError\<close>.
\<close>

datatype Content = TextContent "string option" | ToolCall ToolCallContent | ThinkingContent string

datatype Message =
    AssistantMessage "Content list"
  | ToolResultMessage "jsvalue option" "jsvalue option" string bool

text \<open>
  \<^verbatim>\<open>response.content.filter(isToolCallContent)\<close>, and the texts of the text blocks as
  \<^verbatim>\<open>join\<close> prints them.
\<close>

fun toolCallsOf :: "Content list \<Rightarrow> ToolCallContent list" where
  "toolCallsOf [] = []"
| "toolCallsOf (ToolCall tc # cs) = tc # toolCallsOf cs"
| "toolCallsOf (_ # cs) = toolCallsOf cs"

fun textsOf :: "Content list \<Rightarrow> string list" where
  "textsOf [] = []"
| "textsOf (TextContent t # cs) = (case t of Some s \<Rightarrow> s | None \<Rightarrow> []) # textsOf cs"
| "textsOf (_ # cs) = textsOf cs"

text \<open>
  What the loop is given. The cancellation signal is a function of time, counted in the
  \<^verbatim>\<open>await\<close>s of the loop that have completed: \<open>env_aborted env t\<close> is \<^verbatim>\<open>signal.aborted\<close> when the
  \<open>t\<close>-th \<^verbatim>\<open>await\<close> has completed. The completion provider \<^verbatim>\<open>complete\<close> is outside the
  repository; it is a function of the number of the request, of the transcript sent with
  it and of the signal, which line 797 hands to it in the options, and it resolves to a
  response or throws. (The model, the system prompt, the tools, the key and the
  reasoning level are the same for every request of a run. A response without a
  \<^verbatim>\<open>content\<close> array makes line 806 throw; this counts as the provider throwing.)
  \<^verbatim>\<open>notifyFn\<close> returns or throws. The schedule of a tool batch is the order in which its
  calls settle.
\<close>

record LoopEnv =
  env_config :: ExtensionConfig
  env_aborted :: "nat \<Rightarrow> bool"
  env_complete :: "nat \<Rightarrow> Message list \<Rightarrow> (nat \<Rightarrow> bool) \<Rightarrow> thrown + Content list"
  env_exec :: bashExec
  env_files :: bashFiles
  env_notify :: "Notification \<Rightarrow> thrown option"
  env_schedule :: "nat \<Rightarrow> nat list"

text \<open>
  The state of a run: the arrays \<^verbatim>\<open>messages\<close> and \<^verbatim>\<open>trajectory\<close>, and, as a record of what
  happened, the number of completion requests issued, the responses received, the
  states of the specification's state machine passed through, the clock, and the
  notifications sent.
\<close>

datatype Phase = Requesting | Executing | Done | Aborted | Failed

datatype Outcome = Returned string | ReturnedUndefined | Threw thrown | Unfinished

record LoopState =
  messages :: "Message list"
  trajectory :: "Message list"
  requests :: nat
  responses :: "Content list list"
  phases :: "Phase list"
  awaits :: nat
  notifications :: "Notification list"

text \<open>
  The loop of lines 826-840 over the tool calls and their results. Reading
  \<^verbatim>\<open>r.result\<close> of a slot that is \<^verbatim>\<open>undefined\<close> throws a \<^verbatim>\<open>TypeError\<close>.
\<close>

fun pushResults ::
    "ToolCallContent list \<Rightarrow> ToolCallExecResult option list \<Rightarrow> LoopState
       \<Rightarrow> thrown option \<times> LoopState" where
  "pushResults [] rs st = (None, st)"
| "pushResults (tc # tcs) (Some r # rs) st =
     (let toolResultMsg = ToolResultMessage (tcc_id tc) (tcc_name tc) (result r) (isError r)
      in pushResults tcs rs
           (st\<lparr>messages := messages st @ [toolResultMsg],
               trajectory := trajectory st @ [toolResultMsg]\<rparr>))"
| "pushResults (tc # tcs) _ st =
     (Some (ErrorObject ''Cannot read properties of undefined''), st)"

text \<open>
  \<^verbatim>\<open>runAgentLoop\<close>, lines 775-859. One unit of fuel is one pass through the body of
  \<^verbatim>\<open>while (true)\<close>; a run that has not returned when the fuel is used up is \<open>Unfinished\<close>.
  The \<^verbatim>\<open>await\<close> of line 824 throws when the batch rejects; the loop has no \<^verbatim>\<open>try\<close>, so
  \<^verbatim>\<open>runAgentLoop\<close> throws with it, as it does when the provider throws or when a result
  slot is \<^verbatim>\<open>undefined\<close>.
\<close>

fun agentLoop :: "LoopEnv \<Rightarrow> nat \<Rightarrow> LoopState \<Rightarrow> Outcome \<times> LoopState" where
  "agentLoop env 0 st = (Unfinished, st)"
| "agentLoop env (Suc fuel) st =
     (let st0 = st\<lparr>phases := phases st @ [Requesting]\<rparr> in
      if env_aborted env (awaits st0)
      then (ReturnedUndefined, st0\<lparr>phases := phases st0 @ [Aborted]\<rparr>)
      else
        (case env_complete env (requests st0) (messages st0) (env_aborted env) of
           Inl error \<Rightarrow>
             (Threw error,
              st0\<lparr>requests := requests st0 + 1, awaits := awaits st0 + 1,
                  phases := phases st0 @ [Failed]\<rparr>)
         | Inr response \<Rightarrow>
             (let st1 = st0\<lparr>requests := requests st0 + 1, awaits := awaits st0 + 1,
                            responses := responses st0 @ [response]\<rparr>;
                  toolCalls = toolCallsOf response
              in if length toolCalls > 0
                 then
                   (let assistantMsg = AssistantMessage response;
                        st2 = st1\<lparr>messages := messages st1 @ [assistantMsg],
                                  trajectory := trajectory st1 @ [assistantMsg],
                                  phases := phases st1 @ [Executing]\<rparr>;
                        batch = executeToolCalls (env_config env) (env_exec env)
                                  (env_schedule env (requests st0)) toolCalls (env_files env)
                                  (env_notify env);
                        st3 = st2\<lparr>awaits := awaits st2 + 1,
                                  notifications := notifications st2 @ snd batch\<rparr>
                    in case fst batch of
                         Inl error \<Rightarrow> (Threw error, st3\<lparr>phases := phases st3 @ [Failed]\<rparr>)
                       | Inr slots \<Rightarrow>
                           (case pushResults toolCalls slots st3 of
                              (Some error, st4) \<Rightarrow>
                                (Threw error, st4\<lparr>phases := phases st4 @ [Failed]\<rparr>)
                            | (None, st4) \<Rightarrow> agentLoop env fuel st4))
                 else
                   (let summary = trim (joinWith [CHR 0x0A] (textsOf response))
                    in (Returned summary,
                        st1\<lparr>trajectory := trajectory st1 @ [AssistantMessage response],
                            phases := phases st1 @ [Done]\<rparr>)))))"

definition initialState :: LoopState where
  "initialState =
     \<lparr>messages = [], trajectory = [], requests = 0, responses = [], phases = [], awaits = 0,
      notifications = []\<rparr>"

definition runAgentLoop :: "LoopEnv \<Rightarrow> nat \<Rightarrow> Outcome \<times> LoopState" where
  "runAgentLoop env fuel = agentLoop env fuel initialState"

section \<open>Properties as the specification words them, and sample conversations\<close>

text \<open>
  The path a tool-result message contributes according to the specification: the message
  does not signal failure, its linkage id is indexed, the indexed call is a \<open>write\<close> or an
  \<open>edit\<close>, and the call's \<open>path\<close> argument is a string.
\<close>

definition claimedPath :: "(string \<rightharpoonup> ToolCallInfo) \<Rightarrow> LlmMessage \<Rightarrow> string option" where
  "claimedPath idx m =
     (if msg_role m = Some ''toolResult'' \<and> msg_isError m \<noteq> Some True then
        (case msg_toolCallId m of
           None \<Rightarrow> None
         | Some i \<Rightarrow>
             (case idx i of
                None \<Rightarrow> None
              | Some tc \<Rightarrow>
                  if tc_name tc \<in> {''write'', ''edit''} then
                    (case tc_args tc ''path'' of Some (JString p) \<Rightarrow> Some p | _ \<Rightarrow> None)
                  else None))
      else None)"

text \<open>
  The text of a message, and the command form of the amended C7: the first eight code
  units are \<open>/compact\<close> in any letter case, and the command word ends there (the text
  ends, or the next code unit is not a letter, a digit or an underscore). \<open>noteOf\<close> is the
  remainder after the command word, trimmed; an empty remainder is no note.
\<close>

definition messageText :: "LlmMessage \<Rightarrow> string" where
  "messageText m = extractTextFromLlmMessageContent (msg_content m)"

definition compactCommandText :: "string \<Rightarrow> bool" where
  "compactCommandText t =
     (toLowerCase (take 8 t) = ''/compact''
      \<and> (length t = 8 \<or> \<not> isWordChar (t ! 8)))"

definition noteOf :: "LlmMessage \<Rightarrow> string option" where
  "noteOf m =
     (if trim (drop 8 (messageText m)) = [] then None
      else Some (trim (drop 8 (messageText m))))"

text \<open>Builders for the messages of the sample conversations.\<close>

definition mkTextBlock :: "string \<Rightarrow> LlmContentBlock" where
  "mkTextBlock t =
     \<lparr>block_type = Some ''text'', block_text = Some t, block_id = None, block_name = None,
      block_arguments = None\<rparr>"

definition mkToolCallBlock :: "string \<Rightarrow> string \<Rightarrow> (string \<rightharpoonup> jsvalue) \<Rightarrow> LlmContentBlock" where
  "mkToolCallBlock i n a =
     \<lparr>block_type = Some ''toolCall'', block_text = None, block_id = Some i, block_name = Some n,
      block_arguments = Some a\<rparr>"

definition mkUser :: "string \<Rightarrow> LlmMessage" where
  "mkUser t =
     \<lparr>msg_role = Some ''user'', msg_content = Some [mkTextBlock t], msg_isError = None,
      msg_toolCallId = None\<rparr>"

definition mkAssistant :: "LlmContentBlock list \<Rightarrow> LlmMessage" where
  "mkAssistant blocks =
     \<lparr>msg_role = Some ''assistant'', msg_content = Some blocks, msg_isError = None,
      msg_toolCallId = None\<rparr>"

definition mkToolResult :: "string \<Rightarrow> bool \<Rightarrow> LlmMessage" where
  "mkToolResult i err =
     \<lparr>msg_role = Some ''toolResult'', msg_content = Some [], msg_isError = Some err,
      msg_toolCallId = Some i\<rparr>"

text \<open>
  Model selection as the amended C6 words it: the registered model of a candidate, the
  selection a candidate yields when it has a registered model and a credential that is
  present and not empty, and the selection the session default yields.
\<close>

definition registeredModel :: "ModelRegistry \<Rightarrow> CompactionModelConfig \<Rightarrow> Model option" where
  "registeredModel reg c =
     find (\<lambda>m. model_provider m = cm_provider c \<and> model_id m = cm_id c) (getAll reg)"

definition hasCredential :: "ModelRegistry \<Rightarrow> Model \<Rightarrow> bool" where
  "hasCredential reg m = (getApiKey reg m \<noteq> None \<and> getApiKey reg m \<noteq> Some [])"

definition usableCandidate :: "ModelRegistry \<Rightarrow> CompactionModelConfig \<Rightarrow> bool" where
  "usableCandidate reg c =
     (case registeredModel reg c of None \<Rightarrow> False | Some m \<Rightarrow> hasCredential reg m)"

definition candidateSelection ::
    "ExtensionConfig \<Rightarrow> ModelRegistry \<Rightarrow> CompactionModelConfig \<Rightarrow> ModelSelection option" where
  "candidateSelection config reg c =
     (case registeredModel reg c of
        None \<Rightarrow> None
      | Some m \<Rightarrow>
          (case getApiKey reg m of
             None \<Rightarrow> None
           | Some k \<Rightarrow>
               Some \<lparr>sel_model = m, sel_apiKey = k,
                     sel_thinkingLevel =
                       (case cm_thinkingLevel c of Some t \<Rightarrow> t | None \<Rightarrow> thinkingLevel config)\<rparr>))"

definition sessionSelection ::
    "ExtensionConfig \<Rightarrow> ModelRegistry \<Rightarrow> Model option \<Rightarrow> ModelSelection option" where
  "sessionSelection config reg sessionModel =
     (case sessionModel of
        None \<Rightarrow> None
      | Some sm \<Rightarrow>
          if hasCredential reg sm
          then (case getApiKey reg sm of
                  None \<Rightarrow> None
                | Some k \<Rightarrow>
                    Some \<lparr>sel_model = sm, sel_apiKey = k, sel_thinkingLevel = thinkingLevel config\<rparr>)
          else None)"

text \<open>A sample configuration and registry.\<close>

definition sampleConfig :: ExtensionConfig where
  "sampleConfig =
     \<lparr>compactionModels =
        [\<lparr>cm_provider = ''cerebras'', cm_id = ''qwen-3-32b'', cm_thinkingLevel = None\<rparr>,
         \<lparr>cm_provider = ''anthropic'', cm_id = ''claude-haiku-4-5'', cm_thinkingLevel = Some Low\<rparr>],
      thinkingLevel = Off, debugCompactions = False, toolResultMaxChars = Num 50000,
      toolCallPreviewChars = Num 60, toolCallConcurrency = Num 6, minSummaryChars = Num 100\<rparr>"

definition sampleRegistry :: "string \<Rightarrow> string \<Rightarrow> ModelRegistry" where
  "sampleRegistry cerebrasKey anthropicKey =
     \<lparr>getAll =
        [\<lparr>model_provider = ''cerebras'', model_id = ''qwen-3-32b'', model_name = ''Qwen''\<rparr>,
         \<lparr>model_provider = ''anthropic'', model_id = ''claude-haiku-4-5'', model_name = ''Haiku''\<rparr>],
      getApiKey = (\<lambda>m. if model_provider m = ''cerebras'' then Some cerebrasKey
                        else if model_provider m = ''anthropic'' then Some anthropicKey
                        else None)\<rparr>"

text \<open>The strictly sequential map of C1: item \<open>i\<close> is mapped with index \<open>i\<close>.\<close>

definition sequentialMap :: "'a list \<Rightarrow> ('a \<Rightarrow> nat \<Rightarrow> 'u) \<Rightarrow> 'u list" where
  "sequentialMap items mapper = map (\<lambda>i. mapper (items ! i) i) [0..<length items]"

text \<open>The value a mapper call fulfils with, and the reason it throws or rejects with.\<close>

fun fulfilled :: "'u mapped \<Rightarrow> 'u option" where
  "fulfilled (Fulfils v) = Some v"
| "fulfilled (Rejects e) = None"
| "fulfilled (Throws e) = None"

fun failure :: "'u mapped \<Rightarrow> thrown option" where
  "failure (Fulfils v) = None"
| "failure (Rejects e) = Some e"
| "failure (Throws e) = Some e"

text \<open>
  The invariant of a run of the runner: the cursor is within bounds, the suspended
  workers hold distinct indices below the cursor, and the mapper has been called with
  the indices below the cursor in their order. As long as no worker promise has
  rejected, a slot is filled exactly when its index is claimed and no longer awaited,
  with the value its call fulfils with; once one has, the reason is that of a call made.
  \<open>runnerProgress\<close>: as long as no worker promise has rejected, a worker is left as long
  as an index is.
\<close>

definition runnerInv :: "'a list \<Rightarrow> ('a \<Rightarrow> nat \<Rightarrow> 'u mapped) \<Rightarrow> 'u runner \<Rightarrow> bool" where
  "runnerInv items mapper s \<longleftrightarrow>
     nextIndex s \<le> length items \<and> length (results s) = length items \<and>
     distinct (pending s) \<and> set (pending s) \<subseteq> {..<nextIndex s} \<and>
     invoked s = [0..<nextIndex s] \<and>
     (case rejected s of
        Some e \<Rightarrow> \<exists>i<nextIndex s. failure (mapper (items ! i) i) = Some e
      | None \<Rightarrow>
          (\<forall>i<length items. results s ! i =
             (if i < nextIndex s \<and> i \<notin> set (pending s)
              then fulfilled (mapper (items ! i) i) else None))
          \<and> (\<forall>i<nextIndex s. i \<notin> set (pending s) \<longrightarrow> fulfilled (mapper (items ! i) i) \<noteq> None))"

definition runnerProgress :: "'a list \<Rightarrow> 'u runner \<Rightarrow> bool" where
  "runnerProgress items s \<longleftrightarrow>
     (rejected s = None \<longrightarrow> nextIndex s < length items \<longrightarrow> pending s \<noteq> [])"

text \<open>
  The agent loop as the specification words it. The result of a call is what its mapper
  call fulfils with; the tool-result turn of a call carries the call's id and name and
  the text and error flag of that result. The turns of a batch are the turns of its
  calls, in call order, when the concurrency is a number and every call has a result,
  and none otherwise (\<open>those\<close> turns a list of options into the list of their values,
  if none is missing). A response with tool calls adds the assistant turn and the turns
  of its batch to the transcript. A response is \<open>completed\<close> when it has tool calls and
  its batch has its turns; a run has \<open>batchFailed\<close> when its last response has tool calls
  and its batch has no turns.
\<close>

definition callResult :: "LoopEnv \<Rightarrow> ToolCallContent \<Rightarrow> ToolCallExecResult option" where
  "callResult env tc =
     fulfilled (toolCallMapper (env_config env) (env_exec env) (env_files env) (env_notify env) tc 0)"

definition toolResultOf :: "LoopEnv \<Rightarrow> ToolCallContent \<Rightarrow> Message option" where
  "toolResultOf env tc =
     map_option (\<lambda>r. ToolResultMessage (tcc_id tc) (tcc_name tc) (result r) (isError r))
       (callResult env tc)"

definition batchTurns :: "LoopEnv \<Rightarrow> ToolCallContent list \<Rightarrow> Message list option" where
  "batchTurns env calls =
     (if toolCallConcurrency (env_config env) = NaN then None
      else those (map (toolResultOf env) calls))"

definition turnMessages :: "LoopEnv \<Rightarrow> Content list \<Rightarrow> Message list" where
  "turnMessages env response =
     AssistantMessage response
       # (case batchTurns env (toolCallsOf response) of Some turns \<Rightarrow> turns | None \<Rightarrow> [])"

definition completed :: "LoopEnv \<Rightarrow> Content list \<Rightarrow> bool" where
  "completed env response \<longleftrightarrow>
     toolCallsOf response \<noteq> [] \<and> batchTurns env (toolCallsOf response) \<noteq> None"

definition batchFailed :: "LoopEnv \<Rightarrow> Content list list \<Rightarrow> bool" where
  "batchFailed env rs \<longleftrightarrow>
     rs \<noteq> [] \<and> toolCallsOf (last rs) \<noteq> [] \<and> batchTurns env (toolCallsOf (last rs)) = None"

text \<open>
  The states a response leads through, the states a run ends with when it does not end
  in \<open>Done\<close> (a run that throws does so from \<open>Executing\<close> when its batch failed, and from
  \<open>Requesting\<close> otherwise), and the summary of a response (its text blocks joined by line
  feeds, trimmed).
\<close>

definition expectedPhases :: "Content list \<Rightarrow> Phase list" where
  "expectedPhases response =
     (if toolCallsOf response = [] then [Requesting, Done] else [Requesting, Executing])"

fun closingPhases :: "Outcome \<Rightarrow> bool \<Rightarrow> Phase list" where
  "closingPhases ReturnedUndefined inBatch = [Requesting, Aborted]"
| "closingPhases (Threw e) inBatch = (if inBatch then [Failed] else [Requesting, Failed])"
| "closingPhases (Returned s) inBatch = []"
| "closingPhases Unfinished inBatch = []"

definition summaryOf :: "Content list \<Rightarrow> string" where
  "summaryOf response = trim (joinWith [CHR 0x0A] (textsOf response))"

text \<open>
  The batch of request \<open>k\<close>: what \<^verbatim>\<open>executeToolCalls\<close> yields for the calls under the
  schedule of that request, and the value the loop throws when the batch has no turns.
\<close>

definition batchOf ::
    "LoopEnv \<Rightarrow> nat \<Rightarrow> ToolCallContent list
       \<Rightarrow> (thrown + ToolCallExecResult option list) \<times> Notification list" where
  "batchOf env k calls =
     executeToolCalls (env_config env) (env_exec env) (env_schedule env k) calls (env_files env)
       (env_notify env)"

definition batchError :: "LoopEnv \<Rightarrow> nat \<Rightarrow> ToolCallContent list \<Rightarrow> thrown" where
  "batchError env k calls =
     (case fst (batchOf env k calls) of
        Inl e \<Rightarrow> e
      | Inr slots \<Rightarrow> ErrorObject ''Cannot read properties of undefined'')"

text \<open>
  What holds of a run from state \<open>st\<close> to state \<open>st'\<close> that received the responses \<open>rs\<close>.
\<close>

definition runFacts ::
    "LoopEnv \<Rightarrow> nat \<Rightarrow> LoopState \<Rightarrow> Outcome \<Rightarrow> LoopState \<Rightarrow> Content list list \<Rightarrow> bool" where
  "runFacts env fuel st out st' rs \<longleftrightarrow>
     responses st' = responses st @ rs
     \<and> messages st' = messages st
          @ concat (map (turnMessages env) (filter (\<lambda>r. toolCallsOf r \<noteq> []) rs))
     \<and> phases st' = phases st @ concat (map expectedPhases rs)
          @ closingPhases out (batchFailed env rs)
     \<and> (\<forall>r\<in>set (butlast rs). completed env r)
     \<and> ((\<exists>s. out = Returned s) \<longleftrightarrow> rs \<noteq> [] \<and> toolCallsOf (last rs) = [])
     \<and> (\<forall>s. out = Returned s \<longrightarrow> s = summaryOf (last rs))
     \<and> (batchFailed env rs \<longrightarrow> (\<exists>e. out = Threw e))
     \<and> ((\<forall>s. out \<noteq> Returned s) \<and> \<not> batchFailed env rs \<longrightarrow> (\<forall>r\<in>set rs. completed env r))
     \<and> (out = Unfinished \<longrightarrow> length rs = fuel)
     \<and> requests st' = requests st + length rs
          + (case out of Threw e \<Rightarrow> if batchFailed env rs then 0 else 1 | _ \<Rightarrow> 0)
     \<and> (out = ReturnedUndefined \<longrightarrow>
          env_aborted env (awaits st') \<and> awaits st' = awaits st + 2 * length rs)"

text \<open>
  A sample run: the first response asks for two tool calls, of which the second fails;
  the second response is the summary. Tool concurrency is 2, and the notifier returns.
\<close>

definition firstCall :: ToolCallContent where
  "firstCall =
     \<lparr>tcc_id = Some (JString ''call-1''), tcc_name = Some (JString ''bash''),
      tcc_arguments = Some [''command'' \<mapsto> JString ''jq length /conversation.json'']\<rparr>"

definition secondCall :: ToolCallContent where
  "secondCall =
     \<lparr>tcc_id = Some (JString ''call-2''), tcc_name = Some (JString ''zsh''),
      tcc_arguments = Some [''command'' \<mapsto> JString ''wc -l /missing.json'']\<rparr>"

definition sampleExec :: bashExec where
  "sampleExec files command =
     (if command = Some (JString ''jq length /conversation.json'')
      then Inr \<lparr>stdout = ''42'', stderr = [], exitCode = 0\<rparr>
      else if command = None
      then Inl (ErrorObject ''command is not a string'')
      else Inr \<lparr>stdout = [], stderr = ''no such file'', exitCode = 1\<rparr>)"

definition exploringResponse :: "Content list" where
  "exploringResponse =
     [TextContent (Some ''Let me look.''), ToolCall firstCall, ToolCall secondCall]"

definition summaryResponse :: "Content list" where
  "summaryResponse =
     [TextContent (Some ''## Summary''), ThinkingContent ''wrap up'', TextContent (Some '' Done. '')]"

definition sampleComplete :: "nat \<Rightarrow> Message list \<Rightarrow> (nat \<Rightarrow> bool) \<Rightarrow> thrown + Content list" where
  "sampleComplete k transcript signal =
     (if k = 0 then Inr exploringResponse else Inr summaryResponse)"

definition sampleEnv :: "(nat \<Rightarrow> bool) \<Rightarrow> (nat \<Rightarrow> nat list) \<Rightarrow> LoopEnv" where
  "sampleEnv signal schedule =
     \<lparr>env_config = sampleConfig\<lparr>toolCallConcurrency := Num 2\<rparr>,
      env_aborted = signal,
      env_complete = sampleComplete,
      env_exec = sampleExec,
      env_files = [''/conversation.json'' \<mapsto> ''[]''],
      env_notify = (\<lambda>note. None),
      env_schedule = schedule\<rparr>"

text \<open>The tool-result turns and the notifications of the sample batch.\<close>

definition sampleTurns :: "Message list" where
  "sampleTurns =
     [ToolResultMessage (Some (JString ''call-1'')) (Some (JString ''bash'')) ''42'' False,
      ToolResultMessage (Some (JString ''call-2'')) (Some (JString ''zsh''))
        (CHR 0x0A # ''stderr: no such file'' @ CHR 0x0A # ''exit code: 1'') True]"

definition sampleNotes :: "Notification list" where
  "sampleNotes =
     [\<lparr>note_name = Some (JString ''bash''),
       note_preview = JString ''jq length /conversation.json'', note_suffix = []\<rparr>,
      \<lparr>note_name = Some (JString ''zsh''),
       note_preview = JString ''wc -l /missing.json'', note_suffix = []\<rparr>]"



text \<open>
  A response whose second tool call has an \<^verbatim>\<open>arguments\<close> object without a \<^verbatim>\<open>command\<close>.
\<close>

definition brokenCall :: ToolCallContent where
  "brokenCall =
     \<lparr>tcc_id = Some (JString ''call-3''), tcc_name = Some (JString ''bash''),
      tcc_arguments = Some Map.empty\<rparr>"

definition brokenResponse :: "Content list" where
  "brokenResponse = [ToolCall firstCall, ToolCall brokenCall]"

section \<open>Facts about the string primitives\<close>

lemma startsWith_prefix: "startsWith s p = prefix p s"
  by (auto simp: startsWith_def prefix_def) (metis append_eq_conv_conj)

lemma endsWith_suffix: "endsWith s p = suffix p s"
proof
  assume "endsWith s p"
  then have "s = take (length s - length p) s @ p"
    by (metis append_take_drop_id endsWith_def)
  then show "suffix p s"
    by (metis suffixI)
next
  assume "suffix p s"
  then obtain q where "s = q @ p"
    by (auto simp: suffix_def)
  then show "endsWith s p"
    by (simp add: endsWith_def)
qed

lemma includes_str_sublist: "includes_str s p = sublist p s"
proof (induction s)
  case Nil
  then show ?case by simp
next
  case (Cons c cs)
  then show ?case
    by (simp add: startsWith_prefix sublist_Cons_right)
qed

lemma trim_blank: "(\<forall>c\<in>set p. isJsWhitespace c) \<Longrightarrow> trim p = []"
  by (auto simp: trim_def dest: set_dropWhileD)

lemma trim_empty_iff: "trim p = [] \<longleftrightarrow> (\<forall>c\<in>set p. isJsWhitespace c)"
proof
  assume "trim p = []"
  then have "dropWhile isJsWhitespace (rev (dropWhile isJsWhitespace p)) = []"
    by (simp add: trim_def)
  then have "\<forall>c\<in>set (dropWhile isJsWhitespace p). isJsWhitespace c"
    by (simp add: dropWhile_eq_Nil_conv)
  then have "dropWhile isJsWhitespace p = []"
    by (metis dropWhile_eq_Nil_conv dropWhile_idem)
  then show "\<forall>c\<in>set p. isJsWhitespace c"
    by (simp add: dropWhile_eq_Nil_conv)
qed (rule trim_blank)

lemma trim_Nil: "trim [] = []"
  by (simp add: trim_def)

lemma toLowerCaseChar_facts:
  "isJsWhitespace (toLowerCaseChar c) = isJsWhitespace c
   \<and> (toLowerCaseChar c = CHR ''/'') = (c = CHR ''/'')
   \<and> toLowerCaseChar (toLowerCaseChar c) = toLowerCaseChar c"
proof (cases c)
  case (Char b0 b1 b2 b3 b4 b5 b6 b7)
  then show ?thesis
    by (cases b0; cases b1; cases b2; cases b3; cases b4; cases b5; cases b6; cases b7)
       (simp_all add: isJsWhitespace_def)
qed

lemma trim_toLowerCase: "trim (toLowerCase p) = toLowerCase (trim p)"
proof -
  have ws: "isJsWhitespace \<circ> toLowerCaseChar = isJsWhitespace"
    by (rule ext) (simp add: toLowerCaseChar_facts)
  show ?thesis
    by (simp add: trim_def toLowerCase_def dropWhile_map rev_map ws)
qed

lemma basename_toLowerCase: "basename (toLowerCase p) = toLowerCase (basename p)"
proof -
  have a: "(\<lambda>c. c = CHR ''/'') \<circ> toLowerCaseChar = (\<lambda>c. c = CHR ''/'')"
    by (rule ext) (simp add: toLowerCaseChar_facts)
  have b: "(\<lambda>c. c \<noteq> CHR ''/'') \<circ> toLowerCaseChar = (\<lambda>c. c \<noteq> CHR ''/'')"
    by (rule ext) (simp add: toLowerCaseChar_facts)
  show ?thesis
    by (simp add: basename_def toLowerCase_def dropWhile_map takeWhile_map rev_map a b)
qed

lemma toLowerCase_idem: "toLowerCase (toLowerCase p) = toLowerCase p"
  by (simp add: toLowerCase_def toLowerCaseChar_facts)

lemma isLikelyTempArtifactPath_lower:
  "isLikelyTempArtifactPath (toLowerCase p) = isLikelyTempArtifactPath p"
proof -
  have "(trim (toLowerCase p) = []) = (trim p = [])"
    unfolding trim_toLowerCase by (simp add: toLowerCase_def)
  then show ?thesis
    by (simp add: isLikelyTempArtifactPath_def Let_def trim_toLowerCase basename_toLowerCase
        toLowerCase_idem)
qed

section \<open>Facts about file-operation detection\<close>

lemma remdups_snoc: "remdups (xs @ [x]) = filter (\<lambda>y. y \<noteq> x) (remdups xs) @ [x]"
  by (induction xs) auto

lemma setAdd_old: "v \<in> set acc \<Longrightarrow> setAdd acc v = acc"
  by (simp add: setAdd_def)

lemma setAdd_new: "v \<notin> set acc \<Longrightarrow> setAdd acc v = acc @ [v]"
  by (simp add: setAdd_def)

lemma foldl_setAdd:
  "distinct acc \<Longrightarrow>
   foldl setAdd acc xs = acc @ rev (remdups (rev (filter (\<lambda>x. x \<notin> set acc) xs)))"
proof (induction xs arbitrary: acc)
  case Nil
  then show ?case by simp
next
  case (Cons x xs)
  show ?case
  proof (cases "x \<in> set acc")
    case True
    with Cons show ?thesis by (simp add: setAdd_old)
  next
    case False
    have d: "distinct (acc @ [x])" using Cons.prems False by simp
    have "foldl setAdd (acc @ [x]) xs =
          (acc @ [x]) @ rev (remdups (rev (filter (\<lambda>y. y \<notin> set (acc @ [x])) xs)))"
      by (rule Cons.IH [OF d])
    moreover have "filter (\<lambda>y. y \<notin> set (acc @ [x])) xs
                 = filter (\<lambda>y. y \<noteq> x) (filter (\<lambda>y. y \<notin> set acc) xs)"
      by (induction xs) auto
    ultimately show ?thesis using False
      by (simp add: setAdd_new remdups_snoc rev_filter remdups_filter conj_comms)
  qed
qed

lemma setValues_first_occurrence: "setValues xs = rev (remdups (rev xs))"
  using foldl_setAdd [of "[]" xs] by (simp add: setValues_def)

lemma collectModified_map_filter:
  "collectModified idx msgs acc =
     acc @ filter (\<lambda>p. p \<noteq> []) (List.map_filter (claimedPath idx) msgs)"
proof (induction msgs arbitrary: acc)
  case Nil
  then show ?case by (simp add: List.map_filter_simps)
next
  case (Cons m ms)
  then show ?case
    by (auto simp: List.map_filter_simps claimedPath_def extractModifiedPathFromToolResult_def
        split: option.splits jsvalue.splits)
qed

lemma filter_nonempty_trim:
  "filter (\<lambda>v. v \<noteq> []) (map trim (filter (\<lambda>p. p \<noteq> []) ps)) = filter (\<lambda>v. v \<noteq> []) (map trim ps)"
  by (induction ps) (auto simp: trim_Nil)

lemma deletedFiles_empty: "deletedFiles (detectFileOpsFromConversation msgs) = []"
  by (simp add: detectFileOpsFromConversation_def uniqStrings_def setValues_def)

lemma modifiedFiles_uniq:
  "modifiedFiles (detectFileOpsFromConversation msgs) =
     uniqStrings (collectModified (extractToolCallsFromMessages msgs) msgs [])"
  by (simp add: detectFileOpsFromConversation_def uniqStrings_def setValues_def)

lemma indexMessage_other: "msg_role m \<noteq> Some ''assistant'' \<Longrightarrow> indexMessage t m = t"
  by (simp add: indexMessage_def)

lemma index_skip:
  "msg_role m \<noteq> Some ''assistant'' \<Longrightarrow>
   extractToolCallsFromMessages (xs @ m # ys) = extractToolCallsFromMessages (xs @ ys)"
  by (simp add: extractToolCallsFromMessages_def indexMessage_other)

lemma map_filter_append: "List.map_filter f (xs @ ys) = List.map_filter f xs @ List.map_filter f ys"
  by (simp add: List.map_filter_def)

lemma detect_skip:
  assumes "claimedPath (extractToolCallsFromMessages (xs @ ys)) m = None"
      and "msg_role m \<noteq> Some ''assistant''"
  shows "detectFileOpsFromConversation (xs @ m # ys) = detectFileOpsFromConversation (xs @ ys)"
proof -
  have "extractToolCallsFromMessages (xs @ m # ys) = extractToolCallsFromMessages (xs @ ys)"
    using assms(2) by (rule index_skip)
  then show ?thesis using assms(1)
    by (simp add: detectFileOpsFromConversation_def collectModified_map_filter
        map_filter_append List.map_filter_simps)
qed

lemma claimedPath_failed:
  "msg_isError m = Some True \<or> msg_toolCallId m = None
     \<or> (\<exists>i. msg_toolCallId m = Some i \<and> idx i = None)
   \<Longrightarrow> claimedPath idx m = None"
  by (auto simp: claimedPath_def)

section \<open>Facts about trimming and the compact command\<close>

lemma dropWhile_fixed: "xs = [] \<or> \<not> P (hd xs) \<Longrightarrow> dropWhile P xs = xs"
  by (cases xs) auto

lemma dropWhile_hd: "dropWhile P xs = [] \<or> \<not> P (hd (dropWhile P xs))"
  by (metis hd_dropWhile)

lemma last_dropWhile_rev:
  "dropWhile P (rev xs) \<noteq> [] \<Longrightarrow> xs \<noteq> [] \<and> last (dropWhile P (rev xs)) = hd xs"
proof -
  assume a: "dropWhile P (rev xs) \<noteq> []"
  then have ne: "xs \<noteq> []" by auto
  have "rev xs = takeWhile P (rev xs) @ dropWhile P (rev xs)" by simp
  then have "last (rev xs) = last (dropWhile P (rev xs))"
    using a by (metis last_appendR)
  then show ?thesis using ne by (simp add: last_rev)
qed

lemma trim_ends:
  "trim s = [] \<or> (\<not> isJsWhitespace (hd (trim s)) \<and> \<not> isJsWhitespace (last (trim s)))"
proof (cases "trim s = []")
  case True
  then show ?thesis by simp
next
  case False
  let ?A = "dropWhile isJsWhitespace s"
  let ?B = "dropWhile isJsWhitespace (rev ?A)"
  have t: "trim s = rev ?B" by (simp add: trim_def)
  with False have Bne: "?B \<noteq> []" by simp
  then have Ane: "?A \<noteq> []" and lastB: "last ?B = hd ?A"
    using last_dropWhile_rev [of isJsWhitespace ?A] by auto
  have "\<not> isJsWhitespace (hd ?A)" using Ane by (metis hd_dropWhile)
  then have h: "\<not> isJsWhitespace (hd (trim s))"
    using t Bne lastB by (simp add: hd_rev)
  have "\<not> isJsWhitespace (hd ?B)" using Bne by (metis hd_dropWhile)
  then have "\<not> isJsWhitespace (last (trim s))"
    using t Bne by (simp add: last_rev)
  with h show ?thesis by simp
qed

lemma trim_fixed:
  assumes "s = [] \<or> (\<not> isJsWhitespace (hd s) \<and> \<not> isJsWhitespace (last s))"
  shows "trim s = s"
proof (cases "s = []")
  case True
  then show ?thesis by (simp add: trim_def)
next
  case False
  with assms have h: "\<not> isJsWhitespace (hd s)" and l: "\<not> isJsWhitespace (last s)" by auto
  have 1: "dropWhile isJsWhitespace s = s" using h False by (simp add: dropWhile_fixed)
  have "hd (rev s) = last s" using False by (simp add: hd_rev)
  then have 2: "dropWhile isJsWhitespace (rev s) = rev s"
    using l by (simp add: dropWhile_fixed)
  show ?thesis by (simp add: trim_def 1 2)
qed

lemma trim_trim: "trim (trim s) = trim s"
  using trim_ends [of s] by (rule trim_fixed)

lemma dropWhile_weaker:
  "(\<And>c. Q c \<Longrightarrow> P c) \<Longrightarrow> dropWhile P (dropWhile Q s) = dropWhile P s"
  by (induction s) auto

lemma trim_dropWhile_blank:
  "trim (dropWhile (\<lambda>c. c = CHR 0x20 \<or> c = CHR 0x09) s) = trim s"
proof -
  have "dropWhile isJsWhitespace (dropWhile (\<lambda>c. c = CHR 0x20 \<or> c = CHR 0x09) s)
        = dropWhile isJsWhitespace s"
    by (rule dropWhile_weaker) (auto simp: isJsWhitespace_def)
  then show ?thesis by (simp add: trim_def)
qed

lemma extractText_trimmed:
  "trim (extractTextFromLlmMessageContent c) = extractTextFromLlmMessageContent c"
  by (cases c) (simp_all add: extractTextFromLlmMessageContent_def trim_trim trim_Nil)

lemma fold_chars:
  "((asciiUpperChar c = CHR ''/'') = (toLowerCaseChar c = CHR ''/'')) \<and>
   ((asciiUpperChar c = CHR ''C'') = (toLowerCaseChar c = CHR ''c'')) \<and>
   ((asciiUpperChar c = CHR ''O'') = (toLowerCaseChar c = CHR ''o'')) \<and>
   ((asciiUpperChar c = CHR ''M'') = (toLowerCaseChar c = CHR ''m'')) \<and>
   ((asciiUpperChar c = CHR ''P'') = (toLowerCaseChar c = CHR ''p'')) \<and>
   ((asciiUpperChar c = CHR ''A'') = (toLowerCaseChar c = CHR ''a'')) \<and>
   ((asciiUpperChar c = CHR ''T'') = (toLowerCaseChar c = CHR ''t''))"
proof (cases c)
  case (Char b0 b1 b2 b3 b4 b5 b6 b7)
  then show ?thesis
    by (cases b0; cases b1; cases b2; cases b3; cases b4; cases b5; cases b6; cases b7) simp_all
qed

lemma fold_pattern:
  "(map asciiUpperChar xs = ''/COMPACT'') = (toLowerCase xs = ''/compact'')"
  by (simp add: toLowerCase_def map_eq_Cons_conv fold_chars)

lemma matchCompactCommand_spec:
  "matchCompactCommand t =
     (if compactCommandText t
      then Some (dropWhile (\<lambda>c. c = CHR 0x20 \<or> c = CHR 0x09) (drop 8 t)) else None)"
proof -
  have up: "map asciiUpperChar ''/compact'' = ''/COMPACT''" by simp
  have len: "8 \<le> length t" if "toLowerCase (take 8 t) = ''/compact''"
  proof -
    from that have "length (toLowerCase (take 8 t)) = 8" by simp
    then show ?thesis by (simp add: toLowerCase_def)
  qed
  have bnd: "(case drop 8 t of [] \<Rightarrow> True | c # _ \<Rightarrow> \<not> isWordChar c)
             = (length t = 8 \<or> \<not> isWordChar (t ! 8))" if "8 \<le> length t"
  proof (cases "drop 8 t")
    case Nil
    with that show ?thesis by simp
  next
    case (Cons c cs)
    then have "8 < length t" by (metis drop_eq_Nil list.distinct(1) not_le)
    then have "t ! 8 = hd (drop 8 t)"
      by (simp add: hd_drop_conv_nth)
    moreover have "length t \<noteq> 8" using Cons by auto
    ultimately show ?thesis using Cons by simp
  qed
  show ?thesis
  proof (cases "toLowerCase (take 8 t) = ''/compact''")
    case True
    then have "8 \<le> length t" by (rule len)
    with True bnd show ?thesis
      unfolding matchCompactCommand_def compactCommandText_def up fold_pattern by simp
  next
    case False
    then show ?thesis
      unfolding matchCompactCommand_def compactCommandText_def up fold_pattern by simp
  qed
qed

lemma noteLoop_find:
  "noteLoop ms =
     (case find (\<lambda>m. compactCommandText (messageText m)) ms of
        None \<Rightarrow> None
      | Some m \<Rightarrow> noteOf m)"
proof (induction ms)
  case Nil
  then show ?case by simp
next
  case (Cons m ms)
  have e: "\<not> compactCommandText []"
    by (simp add: compactCommandText_def toLowerCase_def)
  show ?case
    using Cons e
    by (simp add: Let_def messageText_def [symmetric] matchCompactCommand_spec
        extractText_trimmed [of "msg_content m", unfolded messageText_def [symmetric]]
        noteOf_def trim_dropWhile_blank)
qed

lemma find_append_none:
  "find P (xs @ ys) = (case find P xs of None \<Rightarrow> find P ys | Some x \<Rightarrow> Some x)"
  by (induction xs) auto

lemma find_none: "(\<forall>x\<in>set xs. \<not> P x) \<Longrightarrow> find P xs = None"
  by (induction xs) auto

section \<open>Facts about model selection\<close>

lemma candidateLoop_find:
  "candidateLoop config reg cs =
     (case find (usableCandidate reg) cs of
        Some c \<Rightarrow> candidateSelection config reg c
      | None \<Rightarrow> None)"
proof (induction cs)
  case Nil
  then show ?case by simp
next
  case (Cons c cs)
  then show ?case
    by (simp add: usableCandidate_def candidateSelection_def registeredModel_def
        hasCredential_def split: option.splits)
qed

lemma usable_selection:
  "usableCandidate reg c \<Longrightarrow> candidateSelection config reg c \<noteq> None"
  by (auto simp: usableCandidate_def candidateSelection_def hasCredential_def
      split: option.splits)

lemma session_fallback:
  "(case sessionModel of
      None \<Rightarrow> None
    | Some sm \<Rightarrow>
        (case getApiKey reg sm of
           None \<Rightarrow> None
         | Some key \<Rightarrow>
             if key = [] then None
             else Some \<lparr>sel_model = sm, sel_apiKey = key, sel_thinkingLevel = thinkingLevel config\<rparr>))
   = sessionSelection config reg sessionModel"
  by (simp add: sessionSelection_def hasCredential_def split: option.splits)

text \<open>
  \<^verbatim>\<open>loadConfig\<close> sets \<^verbatim>\<open>toolCallConcurrency\<close> to \<^verbatim>\<open>parsePositiveInt\<close> of the configured value
  with the default 6, or to the default: it is never \<open>NaN\<close>.
\<close>

lemma parsePositiveInt_not_NaN:
  "defaultValue \<noteq> NaN \<Longrightarrow> parsePositiveInt v defaultValue \<noteq> NaN"
proof (cases v)
  case None
  then show "defaultValue \<noteq> NaN \<Longrightarrow> parsePositiveInt v defaultValue \<noteq> NaN"
    by (simp add: parsePositiveInt_def)
next
  case (Some n)
  then show "defaultValue \<noteq> NaN \<Longrightarrow> parsePositiveInt v defaultValue \<noteq> NaN"
    by (cases n) (simp_all add: parsePositiveInt_def)
qed

section \<open>Facts about the runner\<close>

lemma reject_fields [simp]:
  "nextIndex (reject e s) = nextIndex s"
  "results (reject e s) = results s"
  "pending (reject e s) = pending s"
  "invoked (reject e s) = invoked s"
  "rejected (reject e s) = (if rejected s = None then Some e else rejected s)"
  by (simp_all add: reject_def)

lemma startWorker_inv:
  assumes "runnerInv items mapper s"
  shows "runnerInv items mapper (startWorker items mapper s)"
proof (cases "nextIndex s < length items")
  case False
  with assms show ?thesis by (simp add: startWorker_def)
next
  case True
  let ?nx = "nextIndex s"
  from assms have sub: "set (pending s) \<subseteq> {..<?nx}" and d: "distinct (pending s)"
    by (auto simp: runnerInv_def)
  then have notin: "?nx \<notin> set (pending s)" by auto
  show ?thesis
  proof (cases "mapper (items ! ?nx) ?nx")
    case (Throws e)
    with True assms show ?thesis
      by (auto simp: startWorker_def Let_def runnerInv_def less_Suc_eq split: option.splits)
  next
    case (Rejects e)
    with True assms notin show ?thesis
      by (auto simp: startWorker_def Let_def runnerInv_def less_Suc_eq split: option.splits)
  next
    case (Fulfils v)
    with True assms notin show ?thesis
      by (auto simp: startWorker_def Let_def runnerInv_def less_Suc_eq split: option.splits)
  qed
qed

lemma startWorker_progress: "runnerProgress items (startWorker items mapper s)"
  by (auto simp: startWorker_def Let_def runnerProgress_def split: mapped.splits)

lemma others_set:
  assumes "distinct ps" and "k < length ps"
  shows "set (take k ps @ drop (Suc k) ps) = set ps - {ps ! k}"
    and "distinct (take k ps @ drop (Suc k) ps)"
proof -
  let ?qs = "take k ps @ drop (Suc k) ps"
  have split: "ps = take k ps @ ps ! k # drop (Suc k) ps"
    using assms(2) by (rule id_take_nth_drop)
  have "distinct (take k ps @ ps ! k # drop (Suc k) ps)"
    using assms(1) split by simp
  then have d: "distinct ?qs" and notin: "ps ! k \<notin> set ?qs"
    by auto
  have "set ps = insert (ps ! k) (set ?qs)"
    by (subst split) auto
  with notin show "set ?qs = set ps - {ps ! k}" by auto
  from d show "distinct ?qs" .
qed

lemma settle_inv:
  assumes inv: "runnerInv items mapper s" and k: "k < length (pending s)"
      and none: "rejected s = None"
  shows "runnerInv items mapper (settle items mapper k s)"
proof -
  let ?ps = "pending s" and ?nx = "nextIndex s" and ?n = "length items"
  let ?i = "?ps ! k"
  let ?qs = "take k ?ps @ drop (Suc k) ?ps"
  from inv none have nx: "?nx \<le> ?n" and len: "length (results s) = ?n" and d: "distinct ?ps"
    and sub: "set ?ps \<subseteq> {..<?nx}" and log: "invoked s = [0..<?nx]"
    and res: "\<forall>i<?n. results s ! i =
        (if i < ?nx \<and> i \<notin> set ?ps then fulfilled (mapper (items ! i) i) else None)"
    and ful: "\<forall>i<?nx. i \<notin> set ?ps \<longrightarrow> fulfilled (mapper (items ! i) i) \<noteq> None"
    by (auto simp: runnerInv_def)
  have i_in: "?i \<in> set ?ps" using k by simp
  then have i_lt: "?i < ?nx" using sub by auto
  have nx_notin: "?nx \<notin> set ?ps" using sub by auto
  have setq: "set ?qs = set ?ps - {?i}" and dq: "distinct ?qs"
    using others_set [OF d k] by blast+
  have setu: "set (?ps[k := ?nx]) = insert ?nx (set ?ps - {?i})"
    using d k by (rule set_update_distinct)
  have du: "distinct (?ps[k := ?nx])"
    using d nx_notin by (simp add: distinct_list_update)
  have failed: "runnerInv items mapper (reject e (s\<lparr>pending := ?qs\<rparr>))"
    if "failure (mapper (items ! ?i) ?i) = Some e" for e
    using that nx len dq sub log i_lt none
    by (auto simp: runnerInv_def setq simp del: set_append)
  show ?thesis
  proof (cases "mapper (items ! ?i) ?i")
    case (Throws e)
    then show ?thesis using failed [of e] by (simp add: settle_def Let_def)
  next
    case (Rejects e)
    then show ?thesis using failed [of e] by (simp add: settle_def Let_def)
  next
    case (Fulfils v)
    let ?s1 = "s\<lparr>results := (results s)[?i := Some v]\<rparr>"
    show ?thesis
    proof (cases "?nx < ?n")
      case False
      with nx have e: "?nx = ?n" by simp
      have "settle items mapper k s = ?s1\<lparr>pending := ?qs\<rparr>"
        using False Fulfils by (simp add: settle_def Let_def)
      moreover have "runnerInv items mapper (?s1\<lparr>pending := ?qs\<rparr>)"
        using res ful len i_lt e i_in nx dq sub log none Fulfils
        by (auto simp: runnerInv_def setq nth_list_update simp del: set_append)
      ultimately show ?thesis by simp
    next
      case True
      let ?s2 = "?s1\<lparr>nextIndex := ?nx + 1, invoked := invoked s @ [?nx]\<rparr>"
      show ?thesis
      proof (cases "\<exists>e. mapper (items ! ?nx) ?nx = Throws e")
        case thr: True
        then obtain e where e: "mapper (items ! ?nx) ?nx = Throws e" by blast
        have "settle items mapper k s = reject e (?s2\<lparr>pending := ?qs\<rparr>)"
          using True Fulfils e by (simp add: settle_def Let_def)
        moreover have "runnerInv items mapper (reject e (?s2\<lparr>pending := ?qs\<rparr>))"
          using e nx len dq sub log i_lt none True
          by (auto simp: runnerInv_def setq simp del: set_append)
        ultimately show ?thesis by simp
      next
        case nothr: False
        have "settle items mapper k s = ?s2\<lparr>pending := ?ps[k := ?nx]\<rparr>"
          using True Fulfils nothr by (simp add: settle_def Let_def split: mapped.splits)
        moreover have "runnerInv items mapper (?s2\<lparr>pending := ?ps[k := ?nx]\<rparr>)"
          using res ful len i_lt True i_in nx du sub log none Fulfils nx_notin
          by (auto simp: runnerInv_def setu nth_list_update less_Suc_eq)
        ultimately show ?thesis by simp
      qed
    qed
  qed
qed

lemma settle_progress:
  assumes "k < length (pending s)" and "rejected s = None"
  shows "runnerProgress items (settle items mapper k s)"
  using assms
  by (auto simp: settle_def Let_def runnerProgress_def split: mapped.splits)

lemma drain_inv:
  "runnerInv items mapper s \<Longrightarrow> runnerProgress items s \<Longrightarrow>
   runnerInv items mapper (drain items mapper s)
   \<and> runnerProgress items (drain items mapper s)
   \<and> (pending (drain items mapper s) = [] \<or> rejected (drain items mapper s) \<noteq> None)"
proof (induction items mapper s rule: drain.induct)
  case (1 items mapper s)
  show ?case
  proof (cases "pending s = [] \<or> rejected s \<noteq> None")
    case True
    with "1.prems" show ?thesis by (simp add: drain.simps)
  next
    case False
    then have k: "0 < length (pending s)" and none: "rejected s = None" by auto
    have "runnerInv items mapper (settle items mapper 0 s)"
      using "1.prems"(1) k none by (rule settle_inv)
    moreover have "runnerProgress items (settle items mapper 0 s)"
      using k none by (rule settle_progress)
    ultimately show ?thesis
      using False "1.IH" by (simp add: drain.simps [of items mapper s])
  qed
qed

lemma runSchedule_inv:
  "runnerInv items mapper s \<Longrightarrow> runnerProgress items s \<Longrightarrow>
   runnerInv items mapper (runSchedule items mapper schedule s)
   \<and> runnerProgress items (runSchedule items mapper schedule s)
   \<and> (pending (runSchedule items mapper schedule s) = []
        \<or> rejected (runSchedule items mapper schedule s) \<noteq> None)"
proof (induction schedule arbitrary: s)
  case Nil
  then show ?case using drain_inv [of items mapper s] by simp
next
  case (Cons k ks)
  show ?case
  proof (cases "pending s = [] \<or> rejected s \<noteq> None")
    case True
    with Cons.prems show ?thesis by auto
  next
    case False
    then have k: "k mod length (pending s) < length (pending s)" and none: "rejected s = None"
      by auto
    have "runnerInv items mapper (settle items mapper (k mod length (pending s)) s)"
      using Cons.prems(1) k none by (rule settle_inv)
    moreover have "runnerProgress items (settle items mapper (k mod length (pending s)) s)"
      using k none by (rule settle_progress)
    ultimately show ?thesis
      using False Cons.IH by simp
  qed
qed

lemma startWorkers_inv:
  "runnerInv items mapper s \<Longrightarrow> runnerInv items mapper ((startWorker items mapper ^^ w) s)"
  by (induction w) (simp_all add: startWorker_inv)

lemma startWorkers_progress:
  "0 < w \<Longrightarrow> runnerProgress items ((startWorker items mapper ^^ w) s)"
  by (cases w) (simp_all add: startWorker_progress)

lemma runnerInv_initial:
  "runnerInv items mapper
     \<lparr>nextIndex = 0, results = replicate (length items) None, pending = [], invoked = [],
      rejected = None\<rparr>"
  by (simp add: runnerInv_def)

lemma workerCount_bounds:
  assumes "concurrency \<noteq> NaN" and "0 < n"
  shows "0 < toLength (mathMin (mathMax (Num 1) (mathFloor concurrency)) (Num (real n)))"
proof (cases concurrency)
  case (Num x)
  show ?thesis
  proof (cases "1 < (of_int \<lfloor>x\<rfloor> :: real)")
    case True
    then have "1 < \<lfloor>x\<rfloor>" by linarith
    with True assms(2) show ?thesis
      using Num by (auto simp: min_def)
  next
    case False
    with assms(2) show ?thesis using Num by (auto simp: min_def)
  qed
next
  case PosInfinity
  with assms(2) show ?thesis by (auto simp: min_def)
next
  case NegInfinity
  with assms(2) show ?thesis by (auto simp: min_def)
next
  case NaN
  with assms(1) show ?thesis by simp
qed

lemma runnerInv_finished:
  assumes inv: "runnerInv items mapper s" and pr: "runnerProgress items s"
      and fin: "pending s = [] \<or> rejected s \<noteq> None"
  shows "case rejected s of
           Some e \<Rightarrow> \<exists>i<length items. failure (mapper (items ! i) i) = Some e
         | None \<Rightarrow>
             (\<forall>i<length items. fulfilled (mapper (items ! i) i) \<noteq> None)
             \<and> results s = map (\<lambda>i. fulfilled (mapper (items ! i) i)) [0..<length items]
             \<and> invoked s = [0..<length items]"
proof (cases "rejected s")
  case (Some e)
  with inv obtain i where "i < nextIndex s" and "failure (mapper (items ! i) i) = Some e"
    by (auto simp: runnerInv_def)
  moreover from inv have "nextIndex s \<le> length items" by (simp add: runnerInv_def)
  ultimately have "\<exists>i<length items. failure (mapper (items ! i) i) = Some e"
    by (intro exI [of _ i]) simp
  with Some show ?thesis by simp
next
  case None
  with fin have p: "pending s = []" by simp
  with pr None inv have nx: "nextIndex s = length items"
    by (auto simp: runnerProgress_def runnerInv_def)
  from inv None p nx have all: "\<forall>i<length items. fulfilled (mapper (items ! i) i) \<noteq> None"
    and res: "\<forall>i<length items. results s ! i = fulfilled (mapper (items ! i) i)"
    and len: "length (results s) = length items"
    and log: "invoked s = [0..<length items]"
    by (auto simp: runnerInv_def)
  have "results s = map (\<lambda>i. fulfilled (mapper (items ! i) i)) [0..<length items]"
    by (rule nth_equalityI) (use res len in simp_all)
  with all log None show ?thesis by simp
qed

lemma mapWithConcurrency_outcome:
  fixes items :: "'a list" and mapper :: "'a \<Rightarrow> nat \<Rightarrow> 'u mapped"
  assumes "concurrency \<noteq> NaN"
  shows "case fst (mapWithConcurrency schedule items concurrency mapper) of
           Inl e \<Rightarrow> \<exists>i<length items. failure (mapper (items ! i) i) = Some e
         | Inr slots \<Rightarrow>
             (\<forall>i<length items. fulfilled (mapper (items ! i) i) \<noteq> None)
             \<and> slots = map (\<lambda>i. fulfilled (mapper (items ! i) i)) [0..<length items]
             \<and> snd (mapWithConcurrency schedule items concurrency mapper) = [0..<length items]"
proof (cases "items = []")
  case True
  then show ?thesis by (simp add: mapWithConcurrency_def)
next
  case False
  let ?w = "toLength (mathMin (mathMax (Num 1) (mathFloor concurrency)) (Num (real (length items))))"
  let ?s0 = "\<lparr>nextIndex = 0, results = replicate (length items) (None :: 'u option),
              pending = [], invoked = [], rejected = None\<rparr>"
  let ?s1 = "(startWorker items mapper ^^ ?w) ?s0"
  let ?s2 = "runSchedule items mapper schedule ?s1"
  have w: "0 < ?w" using assms False by (intro workerCount_bounds) auto
  have "runnerInv items mapper ?s1"
    by (intro startWorkers_inv runnerInv_initial)
  moreover have "runnerProgress items ?s1"
    using w by (rule startWorkers_progress)
  ultimately have fin: "runnerInv items mapper ?s2" "runnerProgress items ?s2"
      "pending ?s2 = [] \<or> rejected ?s2 \<noteq> None"
    using runSchedule_inv by blast+
  have eq: "mapWithConcurrency schedule items concurrency mapper
            = (case rejected ?s2 of Some e \<Rightarrow> Inl e | None \<Rightarrow> Inr (results ?s2), invoked ?s2)"
    using False by (simp add: mapWithConcurrency_def Let_def)
  show ?thesis
    using runnerInv_finished [OF fin] unfolding eq
    by (cases "rejected ?s2") simp_all
qed

lemma mapWithConcurrency_sequential:
  fixes items :: "'a list" and f :: "'a \<Rightarrow> nat \<Rightarrow> 'u"
  assumes "concurrency \<noteq> NaN"
  shows "mapWithConcurrency schedule items concurrency (\<lambda>item index. Fulfils (f item index))
         = (Inr (map Some (sequentialMap items f)), [0..<length items])"
proof -
  let ?r = "mapWithConcurrency schedule items concurrency (\<lambda>item index. Fulfils (f item index))"
  have "case fst ?r of
           Inl e \<Rightarrow> \<exists>i<length items. failure (Fulfils (f (items ! i) i) :: 'u mapped) = Some e
         | Inr slots \<Rightarrow>
             (\<forall>i<length items. fulfilled (Fulfils (f (items ! i) i) :: 'u mapped) \<noteq> None)
             \<and> slots = map (\<lambda>i. fulfilled (Fulfils (f (items ! i) i) :: 'u mapped)) [0..<length items]
             \<and> snd ?r = [0..<length items]"
    using mapWithConcurrency_outcome
      [OF assms, where schedule = schedule and items = items
         and mapper = "\<lambda>item index. Fulfils (f item index)"]
    by simp
  then show ?thesis
    by (cases ?r; cases "fst ?r") (auto simp: sequentialMap_def)
qed

lemma runSchedule_idle: "pending s = [] \<Longrightarrow> runSchedule items mapper schedule s = s"
  by (cases schedule) (simp_all add: drain.simps)

lemma mapWithConcurrency_NaN:
  "items \<noteq> [] \<Longrightarrow>
   mapWithConcurrency schedule items NaN mapper = (Inr (replicate (length items) None), [])"
  by (simp add: mapWithConcurrency_def runSchedule_idle)

section \<open>Facts about tool execution\<close>

lemma truncateReal_nonneg: "0 \<le> x \<Longrightarrow> truncateReal x = \<lfloor>x\<rfloor>"
  by (simp add: truncateReal_def)

lemma sliceFromStart_length:
  "0 \<le> x \<Longrightarrow> length (sliceFromStart s (Num x)) \<le> nat \<lfloor>x\<rfloor>"
  by (simp add: truncateReal_nonneg)

lemma executeSingleToolCall_completed:
  assumes "commandOf tc = Inr command" and "exec files command = Inr r"
  shows "executeSingleToolCall config exec tc files =
           Inr \<lparr>result =
                  sliceFromStart
                    (stdout r @ (if stderr r \<noteq> [] then CHR 0x0A # ''stderr: '' @ stderr r else [])
                       @ (if exitCode r \<noteq> 0
                          then CHR 0x0A # ''exit code: '' @ intToString (exitCode r) else []))
                    (toolResultMaxChars config),
                 isError = (exitCode r \<noteq> 0)\<rparr>"
  using assms by (simp add: executeSingleToolCall_def Let_def)

lemma executeSingleToolCall_thrown:
  assumes "commandOf tc = Inr command" and "exec files command = Inl error"
  shows "executeSingleToolCall config exec tc files =
           Inr \<lparr>result = ''Error: '' @ (case error of ErrorObject m \<Rightarrow> m | OtherThrown s \<Rightarrow> s),
                 isError = True\<rparr>"
  using assms by (simp add: executeSingleToolCall_def Let_def)

lemma executeSingleToolCall_returns:
  "tcc_arguments tc \<noteq> None \<Longrightarrow> \<exists>r. executeSingleToolCall config exec tc files = Inr r"
  by (auto simp: executeSingleToolCall_def commandOf_def Let_def split: sum.splits)

lemma executeSingleToolCall_rejects:
  "tcc_arguments tc = None \<Longrightarrow> \<exists>e. executeSingleToolCall config exec tc files = Inl e"
  by (simp add: executeSingleToolCall_def commandOf_def)

section \<open>Facts about the agent loop\<close>

lemma map_nth_fun: "map (\<lambda>i. f (xs ! i)) [0..<length xs] = map f xs"
proof -
  have "map (\<lambda>i. f (xs ! i)) [0..<length xs] = map f (map (\<lambda>i. xs ! i) [0..<length xs])"
    by simp
  then show ?thesis by (simp only: map_nth)
qed

lemma those_map_Some:
  "those (map f xs) = Some ys \<Longrightarrow> (\<forall>x\<in>set xs. f x \<noteq> None) \<and> map Some ys = map f xs"
  by (induction xs arbitrary: ys) (auto split: option.splits)

lemma those_map_None: "those (map f xs) = None \<Longrightarrow> \<exists>x\<in>set xs. f x = None"
  by (induction xs) (auto split: option.splits)

lemma toolResultOf_None: "toolResultOf env tc = None \<longleftrightarrow> callResult env tc = None"
  by (simp add: toolResultOf_def)

lemma batchOf_completes:
  assumes cfg: "toolCallConcurrency (env_config env) \<noteq> NaN"
      and all: "\<forall>tc\<in>set calls. callResult env tc \<noteq> None"
  shows "batchOf env k calls
           = (Inr (map (callResult env) calls), notified (env_config env) calls [0..<length calls])"
proof -
  let ?mapper = "toolCallMapper (env_config env) (env_exec env) (env_files env) (env_notify env)"
  let ?r = "mapWithConcurrency (env_schedule env k) calls (toolCallConcurrency (env_config env)) ?mapper"
  have idx: "\<And>tc i. fulfilled (?mapper tc i) = callResult env tc"
    by (simp add: callResult_def toolCallMapper_def)
  have out: "case fst ?r of
           Inl e \<Rightarrow> \<exists>i<length calls. failure (?mapper (calls ! i) i) = Some e
         | Inr slots \<Rightarrow>
             (\<forall>i<length calls. fulfilled (?mapper (calls ! i) i) \<noteq> None)
             \<and> slots = map (\<lambda>i. fulfilled (?mapper (calls ! i) i)) [0..<length calls]
             \<and> snd ?r = [0..<length calls]"
    using cfg by (rule mapWithConcurrency_outcome)
  have nofail: "failure (?mapper (calls ! i) i) = None" if "i < length calls" for i
  proof -
    from that all have "fulfilled (?mapper (calls ! i) i) \<noteq> None"
      by (simp add: idx)
    then show ?thesis by (cases "?mapper (calls ! i) i") simp_all
  qed
  have "?r = (Inr (map (callResult env) calls), [0..<length calls])"
  proof (cases "fst ?r")
    case (Inl e)
    with out nofail show ?thesis by auto
  next
    case (Inr slots)
    with out have "slots = map (\<lambda>i. callResult env (calls ! i)) [0..<length calls]"
      and "snd ?r = [0..<length calls]"
      by (simp_all add: idx)
    then have "slots = map (callResult env) calls"
      by (simp only: map_nth_fun)
    with Inr \<open>snd ?r = [0..<length calls]\<close> show ?thesis
      by (cases ?r) simp
  qed
  then show ?thesis
    by (simp add: batchOf_def executeToolCalls_def)
qed

lemma batchOf_fails:
  assumes cfg: "toolCallConcurrency (env_config env) \<noteq> NaN"
      and some: "\<exists>tc\<in>set calls. callResult env tc = None"
  shows "\<exists>e. fst (batchOf env k calls) = Inl e"
proof -
  let ?mapper = "toolCallMapper (env_config env) (env_exec env) (env_files env) (env_notify env)"
  let ?r = "mapWithConcurrency (env_schedule env k) calls (toolCallConcurrency (env_config env)) ?mapper"
  have idx: "\<And>tc i. fulfilled (?mapper tc i) = callResult env tc"
    by (simp add: callResult_def toolCallMapper_def)
  have out: "case fst ?r of
           Inl e \<Rightarrow> \<exists>i<length calls. failure (?mapper (calls ! i) i) = Some e
         | Inr slots \<Rightarrow>
             (\<forall>i<length calls. fulfilled (?mapper (calls ! i) i) \<noteq> None)
             \<and> slots = map (\<lambda>i. fulfilled (?mapper (calls ! i) i)) [0..<length calls]
             \<and> snd ?r = [0..<length calls]"
    using cfg by (rule mapWithConcurrency_outcome)
  from some obtain i where i: "i < length calls" and "callResult env (calls ! i) = None"
    by (auto simp: in_set_conv_nth)
  then have "fulfilled (?mapper (calls ! i) i) = None" by (simp add: idx)
  with out i obtain e where "fst ?r = Inl e"
    by (cases "fst ?r") auto
  then have "fst (batchOf env k calls) = Inl e"
    by (cases ?r) (simp add: batchOf_def executeToolCalls_def)
  then show ?thesis ..
qed

lemma batchOf_NaN:
  "toolCallConcurrency (env_config env) = NaN \<Longrightarrow> calls \<noteq> [] \<Longrightarrow>
   batchOf env k calls = (Inr (replicate (length calls) None), [])"
  by (simp add: batchOf_def executeToolCalls_def mapWithConcurrency_NaN notified_def)

lemma pushResults_undefined:
  "tcs \<noteq> [] \<Longrightarrow>
   pushResults tcs (replicate (length tcs) None) st
     = (Some (ErrorObject ''Cannot read properties of undefined''), st)"
  by (cases tcs) simp_all

lemma pushResults_all:
  "those (map (toolResultOf env) calls) = Some turns \<Longrightarrow>
   pushResults calls (map (callResult env) calls) st =
     (None, st\<lparr>messages := messages st @ turns, trajectory := trajectory st @ turns\<rparr>)"
proof (induction calls arbitrary: turns st)
  case Nil
  then show ?case by simp
next
  case (Cons tc calls)
  from Cons.prems obtain m ms where m: "toolResultOf env tc = Some m"
    and ms: "those (map (toolResultOf env) calls) = Some ms" and t: "turns = m # ms"
    by (auto split: option.splits)
  from m obtain r where r: "callResult env tc = Some r"
    and m': "m = ToolResultMessage (tcc_id tc) (tcc_name tc) (result r) (isError r)"
    by (auto simp: toolResultOf_def)
  show ?case
    using Cons.IH [OF ms] r m' t by (simp add: Let_def)
qed

lemma batchTurns_Some:
  assumes "batchTurns env calls = Some turns"
  shows "toolCallConcurrency (env_config env) \<noteq> NaN"
    and "those (map (toolResultOf env) calls) = Some turns"
    and "\<forall>tc\<in>set calls. callResult env tc \<noteq> None"
proof -
  from assms show c: "toolCallConcurrency (env_config env) \<noteq> NaN"
    by (auto simp: batchTurns_def split: if_splits)
  with assms show t: "those (map (toolResultOf env) calls) = Some turns"
    by (simp add: batchTurns_def)
  from those_map_Some [OF t] show "\<forall>tc\<in>set calls. callResult env tc \<noteq> None"
    by (simp add: toolResultOf_None)
qed

lemma batch_completes:
  assumes "batchTurns env calls = Some turns"
  shows "fst (batchOf env k calls) = Inr (map (callResult env) calls)"
    and "pushResults calls (map (callResult env) calls) st =
           (None, st\<lparr>messages := messages st @ turns, trajectory := trajectory st @ turns\<rparr>)"
  using batchOf_completes [OF batchTurns_Some(1,3) [OF assms]]
    pushResults_all [OF batchTurns_Some(2) [OF assms]]
  by simp_all

lemma batch_fails:
  assumes none: "batchTurns env calls = None" and ne: "calls \<noteq> []"
  shows "(\<exists>e. fst (batchOf env k calls) = Inl e)
         \<or> (fst (batchOf env k calls) = Inr (replicate (length calls) None))"
proof (cases "toolCallConcurrency (env_config env) = NaN")
  case True
  then show ?thesis using ne by (simp add: batchOf_NaN)
next
  case False
  with none have "those (map (toolResultOf env) calls) = None"
    by (simp add: batchTurns_def)
  then have "\<exists>tc\<in>set calls. callResult env tc = None"
    using those_map_None [of "toolResultOf env" calls] by (simp add: toolResultOf_None)
  with False show ?thesis using batchOf_fails by blast
qed

lemma agentLoop_step:
  "agentLoop env (Suc fuel) st =
     (if env_aborted env (awaits st)
      then (ReturnedUndefined, st\<lparr>phases := phases st @ [Requesting, Aborted]\<rparr>)
      else
        (case env_complete env (requests st) (messages st) (env_aborted env) of
           Inl error \<Rightarrow>
             (Threw error,
              st\<lparr>requests := Suc (requests st), awaits := Suc (awaits st),
                 phases := phases st @ [Requesting, Failed]\<rparr>)
         | Inr response \<Rightarrow>
             if toolCallsOf response = []
             then (Returned (summaryOf response),
                   st\<lparr>trajectory := trajectory st @ [AssistantMessage response],
                      requests := Suc (requests st), awaits := Suc (awaits st),
                      responses := responses st @ [response],
                      phases := phases st @ [Requesting, Done]\<rparr>)
             else
               (case batchTurns env (toolCallsOf response) of
                  Some turns \<Rightarrow>
                    agentLoop env fuel
                      (st\<lparr>messages := messages st @ AssistantMessage response # turns,
                         trajectory := trajectory st @ AssistantMessage response # turns,
                         requests := Suc (requests st), awaits := awaits st + 2,
                         responses := responses st @ [response],
                         phases := phases st @ [Requesting, Executing],
                         notifications := notifications st
                            @ snd (batchOf env (requests st) (toolCallsOf response))\<rparr>)
                | None \<Rightarrow>
                    (Threw (batchError env (requests st) (toolCallsOf response)),
                     st\<lparr>messages := messages st @ [AssistantMessage response],
                        trajectory := trajectory st @ [AssistantMessage response],
                        requests := Suc (requests st), awaits := awaits st + 2,
                        responses := responses st @ [response],
                        phases := phases st @ [Requesting, Executing, Failed],
                        notifications := notifications st
                           @ snd (batchOf env (requests st) (toolCallsOf response))\<rparr>))))"
proof (cases "env_aborted env (awaits st)")
  case True
  then show ?thesis by (cases st) (simp add: Let_def)
next
  case False
  show ?thesis
  proof (cases "env_complete env (requests st) (messages st) (env_aborted env)")
    case (Inl error)
    with False show ?thesis by (cases st) (simp add: Let_def)
  next
    case (Inr response)
    show ?thesis
    proof (cases "toolCallsOf response = []")
      case True
      with False Inr show ?thesis by (cases st) (simp add: Let_def summaryOf_def)
    next
      case calls: False
      let ?calls = "toolCallsOf response"
      show ?thesis
      proof (cases "batchTurns env ?calls")
        case (Some turns)
        note b = batch_completes [OF Some]
        from False Inr calls Some show ?thesis
          by (cases st) (simp add: Let_def batchOf_def [symmetric] b)
      next
        case None
        from batch_fails [OF None calls, of "requests st"]
        show ?thesis
        proof
          assume "\<exists>e. fst (batchOf env (requests st) ?calls) = Inl e"
          then obtain e where e: "fst (batchOf env (requests st) ?calls) = Inl e" ..
          with False Inr calls None show ?thesis
            by (cases st) (simp add: Let_def batchOf_def [symmetric] batchError_def)
        next
          assume u: "fst (batchOf env (requests st) ?calls) = Inr (replicate (length ?calls) None)"
          with False Inr calls None show ?thesis
            by (cases st)
               (simp add: Let_def batchOf_def [symmetric] batchError_def
                  pushResults_undefined [OF calls])
        qed
      qed
    qed
  qed
qed

lemma batchFailed_Cons:
  "completed env r \<Longrightarrow> batchFailed env (r # rs) = batchFailed env rs"
  by (cases rs) (auto simp: batchFailed_def completed_def)

lemma agentLoop_run:
  "agentLoop env fuel st = (out, st') \<Longrightarrow> \<exists>rs. runFacts env fuel st out st' rs"
proof (induction fuel arbitrary: st)
  case 0
  then have "runFacts env 0 st out st' []"
    by (auto simp: runFacts_def batchFailed_def)
  then show ?case ..
next
  case (Suc fuel)
  note run = Suc.prems [unfolded agentLoop_step]
  show ?case
  proof (cases "env_aborted env (awaits st)")
    case True
    with run have "runFacts env (Suc fuel) st out st' []"
      by (auto simp: runFacts_def batchFailed_def)
    then show ?thesis ..
  next
    case False
    show ?thesis
    proof (cases "env_complete env (requests st) (messages st) (env_aborted env)")
      case (Inl error)
      with run False have "runFacts env (Suc fuel) st out st' []"
        by (auto simp: runFacts_def batchFailed_def)
      then show ?thesis ..
    next
      case (Inr response)
      show ?thesis
      proof (cases "toolCallsOf response = []")
        case True
        with run False Inr have "runFacts env (Suc fuel) st out st' [response]"
          by (auto simp: runFacts_def expectedPhases_def batchFailed_def)
        then show ?thesis ..
      next
        case calls: False
        show ?thesis
        proof (cases "batchTurns env (toolCallsOf response)")
          case None
          with run False Inr calls have "runFacts env (Suc fuel) st out st' [response]"
            by (auto simp: runFacts_def expectedPhases_def batchFailed_def turnMessages_def)
          then show ?thesis ..
        next
          case (Some turns)
          let ?st1 = "st\<lparr>messages := messages st @ AssistantMessage response # turns,
                         trajectory := trajectory st @ AssistantMessage response # turns,
                         requests := Suc (requests st), awaits := awaits st + 2,
                         responses := responses st @ [response],
                         phases := phases st @ [Requesting, Executing],
                         notifications := notifications st
                            @ snd (batchOf env (requests st) (toolCallsOf response))\<rparr>"
          have comp: "completed env response"
            using calls Some by (simp add: completed_def)
          have tm: "turnMessages env response = AssistantMessage response # turns"
            using Some by (simp add: turnMessages_def)
          note bf = batchFailed_Cons [OF comp]
          from run False Inr calls Some have "agentLoop env fuel ?st1 = (out, st')"
            by simp
          then obtain rs where rs: "runFacts env fuel ?st1 out st' rs"
            using Suc.IH by blast
          have "runFacts env (Suc fuel) st out st' (response # rs)"
            unfolding runFacts_def bf
          proof (intro conjI)
            show "responses st' = responses st @ response # rs"
              using rs by (simp add: runFacts_def)
            show "messages st' = messages st
               @ concat (map (turnMessages env) (filter (\<lambda>r. toolCallsOf r \<noteq> []) (response # rs)))"
              using rs calls tm by (simp add: runFacts_def)
            show "phases st' = phases st @ concat (map expectedPhases (response # rs))
               @ closingPhases out (batchFailed env rs)"
              using rs calls by (simp add: runFacts_def expectedPhases_def)
            show "\<forall>r\<in>set (butlast (response # rs)). completed env r"
              using rs comp by (auto simp: runFacts_def)
            show "(\<exists>s. out = Returned s) \<longleftrightarrow> response # rs \<noteq> [] \<and> toolCallsOf (last (response # rs)) = []"
              using rs calls by (auto simp: runFacts_def)
            show "\<forall>s. out = Returned s \<longrightarrow> s = summaryOf (last (response # rs))"
              using rs calls by (auto simp: runFacts_def)
            show "batchFailed env rs \<longrightarrow> (\<exists>e. out = Threw e)"
              using rs by (simp add: runFacts_def)
            show "(\<forall>s. out \<noteq> Returned s) \<and> \<not> batchFailed env rs
                    \<longrightarrow> (\<forall>r\<in>set (response # rs). completed env r)"
              using rs comp by (auto simp: runFacts_def)
            show "out = Unfinished \<longrightarrow> length (response # rs) = Suc fuel"
              using rs by (auto simp: runFacts_def)
            show "requests st' = requests st + length (response # rs)
                    + (case out of Threw e \<Rightarrow> if batchFailed env rs then 0 else 1 | _ \<Rightarrow> 0)"
              using rs by (simp add: runFacts_def)
            show "out = ReturnedUndefined \<longrightarrow>
               env_aborted env (awaits st') \<and> awaits st' = awaits st + 2 * length (response # rs)"
              using rs by (auto simp: runFacts_def)
          qed
          then show ?thesis ..
        qed
      qed
    qed
  qed
qed




lemma decimal_1: "decimal (Suc 0) = ''1''"
  by (simp add: decimal.simps digitChar_def)

lemma sample_calls:
  assumes "env_config env = sampleConfig\<lparr>toolCallConcurrency := Num 2\<rparr>"
      and "env_exec env = sampleExec" and "env_notify env = (\<lambda>note. None)"
  shows "notificationOf (env_config env) firstCall = Inr (sampleNotes ! 0)"
    and "notificationOf (env_config env) secondCall = Inr (sampleNotes ! 1)"
    and "callResult env firstCall = Some \<lparr>result = ''42'', isError = False\<rparr>"
    and "callResult env secondCall =
           Some \<lparr>result = CHR 0x0A # ''stderr: no such file'' @ CHR 0x0A # ''exit code: 1'',
                 isError = True\<rparr>"
    and "callResult env brokenCall = None"
    and "notificationOf (env_config env) brokenCall
           = Inl (ErrorObject ''Cannot read properties of undefined (reading slice)'')"
  using assms
  by (simp_all add: notificationOf_def commandOf_def previewOf_def sampleNotes_def
      callResult_def toolCallMapper_def executeSingleToolCall_def sampleExec_def
      firstCall_def secondCall_def brokenCall_def Let_def sampleConfig_def intToString_def
      decimal_1 truncateReal_def)

lemma sample_batch:
  assumes "env_config env = sampleConfig\<lparr>toolCallConcurrency := Num 2\<rparr>"
      and "env_exec env = sampleExec" and "env_notify env = (\<lambda>note. None)"
  shows "batchTurns env [firstCall, secondCall] = Some sampleTurns"
    and "snd (batchOf env k [firstCall, secondCall]) = sampleNotes"
proof -
  note c = sample_calls [OF assms]
  have n: "toolCallConcurrency (env_config env) \<noteq> NaN"
    using assms(1) by simp
  have t: "toolResultOf env firstCall = Some (sampleTurns ! 0)"
      "toolResultOf env secondCall = Some (sampleTurns ! 1)"
    unfolding toolResultOf_def c
    by (simp_all add: sampleTurns_def firstCall_def secondCall_def)
  show "batchTurns env [firstCall, secondCall] = Some sampleTurns"
    using n by (simp add: batchTurns_def t sampleTurns_def)
  have "\<forall>tc\<in>set [firstCall, secondCall]. callResult env tc \<noteq> None"
    by (simp add: c)
  from batchOf_completes [OF n this, of k]
  show "snd (batchOf env k [firstCall, secondCall]) = sampleNotes"
    by (simp add: notified_def c sampleNotes_def upt_rec)
qed

lemma sampleEnv_fields:
  "env_config (sampleEnv signal schedule) = sampleConfig\<lparr>toolCallConcurrency := Num 2\<rparr>"
  "env_exec (sampleEnv signal schedule) = sampleExec"
  "env_notify (sampleEnv signal schedule) = (\<lambda>note. None)"
  "env_aborted (sampleEnv signal schedule) = signal"
  "env_complete (sampleEnv signal schedule) = sampleComplete"
  by (simp_all add: sampleEnv_def)



lemma sample_responses:
  "toolCallsOf exploringResponse = [firstCall, secondCall]"
  "toolCallsOf summaryResponse = []"
  "toolCallsOf brokenResponse = [firstCall, brokenCall]"
  "summaryOf summaryResponse = ''## Summary'' @ CHR 0x0A # '' Done.''"
  "summaryOf [] = []"
  by (simp_all add: exploringResponse_def summaryResponse_def brokenResponse_def summaryOf_def
      trim_def isJsWhitespace_def)

lemma sample_turn:
  "turnMessages (sampleEnv signal schedule) exploringResponse
     = AssistantMessage exploringResponse # sampleTurns"
  by (simp add: turnMessages_def sample_responses sample_batch [OF sampleEnv_fields(1-3)])
















lemma executeToolCalls_in_call_order:
  assumes cfg: "toolCallConcurrency config \<noteq> NaN"
      and all: "\<forall>tc\<in>set toolCalls. fulfilled (toolCallMapper config exec files notifyFn tc 0) \<noteq> None"
  shows "executeToolCalls config exec schedule toolCalls files notifyFn =
           (Inr (map (\<lambda>tc. fulfilled (toolCallMapper config exec files notifyFn tc 0)) toolCalls),
            notified config toolCalls [0..<length toolCalls])"
proof -
  let ?env = "\<lparr>env_config = config, env_aborted = (\<lambda>t. False),
               env_complete = (\<lambda>k transcript signal. Inr []), env_exec = exec,
               env_files = files, env_notify = notifyFn, env_schedule = (\<lambda>k. schedule)\<rparr>"
  have c: "toolCallConcurrency (env_config ?env) \<noteq> NaN" using cfg by simp
  have a: "\<forall>tc\<in>set toolCalls. callResult ?env tc \<noteq> None"
    using all by (simp add: callResult_def)
  from batchOf_completes [OF c a, of 0] show ?thesis
    by (simp add: batchOf_def callResult_def [abs_def])
qed

lemma runAgentLoop_transcript:
  assumes "runAgentLoop env fuel = (out, st)"
  shows "messages st =
           concat (map (turnMessages env) (filter (\<lambda>r. toolCallsOf r \<noteq> []) (responses st)))"
proof -
  from assms obtain rs where "runFacts env fuel initialState out st rs"
    unfolding runAgentLoop_def using agentLoop_run by blast
  then show ?thesis by (simp add: runFacts_def initialState_def)
qed

lemma callResult_Some_iff:
  "callResult env tc = Some r \<longleftrightarrow>
     (\<exists>note. notificationOf (env_config env) tc = Inr note \<and> env_notify env note = None)
     \<and> executeSingleToolCall (env_config env) (env_exec env) tc (env_files env) = Inr r"
  by (auto simp: callResult_def toolCallMapper_def split: sum.splits option.splits)

lemma callResult_None_iff:
  "callResult env tc = None \<longleftrightarrow>
     (\<exists>e. notificationOf (env_config env) tc = Inl e)
     \<or> (\<exists>note e. notificationOf (env_config env) tc = Inr note \<and> env_notify env note = Some e)"
proof -
  have "\<exists>r. executeSingleToolCall (env_config env) (env_exec env) tc (env_files env) = Inr r"
    if "notificationOf (env_config env) tc = Inr n" for n
  proof -
    from that have "tcc_arguments tc \<noteq> None"
      by (auto simp: notificationOf_def commandOf_def split: option.splits)
    then show ?thesis by (rule executeSingleToolCall_returns)
  qed
  then show ?thesis
    by (cases "notificationOf (env_config env) tc")
       (auto simp: callResult_def toolCallMapper_def split: sum.splits option.splits)
qed

lemma batchTurns_call_order:
  assumes "batchTurns env calls = Some turns"
  shows "length turns = length calls"
    and "\<forall>i<length calls. \<exists>r.
           executeSingleToolCall (env_config env) (env_exec env) (calls ! i) (env_files env) = Inr r
           \<and> turns ! i = ToolResultMessage (tcc_id (calls ! i)) (tcc_name (calls ! i))
                           (result r) (isError r)"
proof -
  from batchTurns_Some(2) [OF assms] have m: "map Some turns = map (toolResultOf env) calls"
    using those_map_Some by blast
  then have "length (map Some turns) = length (map (toolResultOf env) calls)" by simp
  then show len: "length turns = length calls" by simp
  show "\<forall>i<length calls. \<exists>r.
           executeSingleToolCall (env_config env) (env_exec env) (calls ! i) (env_files env) = Inr r
           \<and> turns ! i = ToolResultMessage (tcc_id (calls ! i)) (tcc_name (calls ! i))
                           (result r) (isError r)"
  proof (intro allI impI)
    fix i assume i: "i < length calls"
    then have "map Some turns ! i = map (toolResultOf env) calls ! i"
      using m by simp
    then have t: "toolResultOf env (calls ! i) = Some (turns ! i)"
      using i len by simp
    then obtain r where r: "callResult env (calls ! i) = Some r"
      and ti: "turns ! i = ToolResultMessage (tcc_id (calls ! i)) (tcc_name (calls ! i))
                             (result r) (isError r)"
      by (auto simp: toolResultOf_def)
    from r have "executeSingleToolCall (env_config env) (env_exec env) (calls ! i) (env_files env) = Inr r"
      by (simp add: callResult_Some_iff)
    with ti show "\<exists>r. executeSingleToolCall (env_config env) (env_exec env) (calls ! i) (env_files env) = Inr r
           \<and> turns ! i = ToolResultMessage (tcc_id (calls ! i)) (tcc_name (calls ! i))
                           (result r) (isError r)"
      by blast
  qed
qed

section \<open>Claim C1: the runner against the sequential map\<close>

text \<open>
  C1 holds for every concurrency bound but \<open>NaN\<close> (lemma \<open>mapWithConcurrency_sequential\<close>:
  for a mapper whose promises fulfil, whatever the order in which they settle, the result
  is the sequential map and the mapper is called once per index, in index order; for the
  empty list the result is empty and the mapper is not called). For \<open>NaN\<close> the coercion
  \<^verbatim>\<open>Math.max(1, Math.floor(concurrency))\<close> yields \<open>NaN\<close>, no worker is started, and the
  function returns an array of \<^verbatim>\<open>undefined\<close> without calling the mapper, where the
  sequential map returns the mapped items.
\<close>

theorem mapWithConcurrency_NaN_returns_undefined:
  "mapWithConcurrency [] [''a'', ''b''] NaN (\<lambda>item index. Fulfils (item @ item))
     = (Inr [None, None], [])
   \<and> map Some (sequentialMap [''a'', ''b''] (\<lambda>item index. item @ item))
       = [Some ''aa'', Some ''bb'']
   \<and> mapWithConcurrency [] [''a'', ''b''] (Num 0) (\<lambda>item index. Fulfils (item @ item))
       = (Inr [Some ''aa'', Some ''bb''], [0, 1])"
proof -
  have a: "mapWithConcurrency [] [''a'', ''b''] NaN (\<lambda>item index. Fulfils (item @ item))
             = (Inr [None, None], [])"
    by (simp add: mapWithConcurrency_def Let_def drain.simps)
  have b: "map Some (sequentialMap [''a'', ''b''] (\<lambda>item index. item @ item))
       = [Some ''aa'', Some ''bb'']"
    by (simp add: sequentialMap_def upt_rec)
  have "mapWithConcurrency [] [''a'', ''b''] (Num 0) (\<lambda>item index. Fulfils (item @ item))
       = (Inr (map Some (sequentialMap [''a'', ''b''] (\<lambda>item index. item @ item))),
          [0..<length [''a'', ''b'']])"
    by (rule mapWithConcurrency_sequential) simp
  then have c: "mapWithConcurrency [] [''a'', ''b''] (Num 0) (\<lambda>item index. Fulfils (item @ item))
       = (Inr [Some ''aa'', Some ''bb''], [0, 1])"
    using b by (simp add: upt_rec)
  from a b c show ?thesis by blast
qed
section \<open>Claim C2: modified files\<close>

text \<open>
  C2, as amended. \<^verbatim>\<open>modifiedFiles\<close> is the first-occurrence-order deduplication of the
  \<^emph>\<open>trimmed, non-empty\<close> string-valued \<open>path\<close> arguments of the indexed \<open>write\<close> and \<open>edit\<close>
  calls whose tool-result message does not signal failure, taken in the order of the
  tool-result messages, with the paths of \<^verbatim>\<open>deletedFiles\<close> removed. A tool-result message
  that signals failure, has no linkage id, or whose linkage id is not indexed can be
  deleted from the conversation without changing the report; so a failed later call
  leaves an earlier successful path in place. The sample conversation (a user message,
  an assistant message with a \<open>write\<close> call to \<^verbatim>\<open>/src/a.ts\<close>, and the non-failing result
  message of that call) yields \<^verbatim>\<open>["/src/a.ts"]\<close> and no deleted file.
\<close>

theorem detectFileOps_modifiedFiles:
  "modifiedFiles (detectFileOpsFromConversation msgs) =
     filter (\<lambda>p. p \<notin> set (deletedFiles (detectFileOpsFromConversation msgs)))
       (rev (remdups (rev (filter (\<lambda>p. p \<noteq> [])
          (map trim (List.map_filter (claimedPath (extractToolCallsFromMessages msgs)) msgs))))))
   \<and> (msg_role m = Some ''toolResult''
        \<and> (msg_isError m = Some True \<or> msg_toolCallId m = None
             \<or> (\<exists>i. msg_toolCallId m = Some i \<and> extractToolCallsFromMessages (xs @ ys) i = None))
        \<longrightarrow> detectFileOpsFromConversation (xs @ m # ys) = detectFileOpsFromConversation (xs @ ys))
   \<and> detectFileOpsFromConversation
        [mkUser ''add a file'',
         mkAssistant [mkToolCallBlock ''call-1'' ''write'' [''path'' \<mapsto> JString ''/src/a.ts'']],
         mkToolResult ''call-1'' False]
      = \<lparr>modifiedFiles = [''/src/a.ts''], deletedFiles = []\<rparr>"
proof -
  have a: "modifiedFiles (detectFileOpsFromConversation msgs) =
     filter (\<lambda>p. p \<notin> set (deletedFiles (detectFileOpsFromConversation msgs)))
       (rev (remdups (rev (filter (\<lambda>p. p \<noteq> [])
          (map trim (List.map_filter (claimedPath (extractToolCallsFromMessages msgs)) msgs))))))"
    by (simp add: deletedFiles_empty modifiedFiles_uniq uniqStrings_def
        setValues_first_occurrence collectModified_map_filter filter_nonempty_trim)
  have b: "detectFileOpsFromConversation (xs @ m # ys) = detectFileOpsFromConversation (xs @ ys)"
    if r: "msg_role m = Some ''toolResult''"
      and f: "msg_isError m = Some True \<or> msg_toolCallId m = None
             \<or> (\<exists>i. msg_toolCallId m = Some i \<and> extractToolCallsFromMessages (xs @ ys) i = None)"
  proof -
    have "claimedPath (extractToolCallsFromMessages (xs @ ys)) m = None"
      using f by (rule claimedPath_failed)
    moreover have "msg_role m \<noteq> Some ''assistant''" using r by simp
    ultimately show ?thesis by (rule detect_skip)
  qed
  have c: "detectFileOpsFromConversation
        [mkUser ''add a file'',
         mkAssistant [mkToolCallBlock ''call-1'' ''write'' [''path'' \<mapsto> JString ''/src/a.ts'']],
         mkToolResult ''call-1'' False]
      = \<lparr>modifiedFiles = [''/src/a.ts''], deletedFiles = []\<rparr>"
    by code_simp
  from a b c show ?thesis by blast
qed

text \<open>
  The report with the failing tool-result message of a second call removed is the report
  of the conversation without it, the path of the first call included.
\<close>

theorem detectFileOps_modifiedFiles_witness:
  "detectFileOpsFromConversation
     [mkAssistant [mkToolCallBlock ''call-1'' ''write'' [''path'' \<mapsto> JString ''/src/a.ts'']],
      mkToolResult ''call-1'' False,
      mkAssistant [mkToolCallBlock ''call-2'' ''edit'' [''path'' \<mapsto> JString ''/src/a.ts'']],
      mkToolResult ''call-2'' True]
   = detectFileOpsFromConversation
     [mkAssistant [mkToolCallBlock ''call-1'' ''write'' [''path'' \<mapsto> JString ''/src/a.ts'']],
      mkToolResult ''call-1'' False,
      mkAssistant [mkToolCallBlock ''call-2'' ''edit'' [''path'' \<mapsto> JString ''/src/a.ts'']]]
   \<and> modifiedFiles (detectFileOpsFromConversation
     [mkAssistant [mkToolCallBlock ''call-1'' ''write'' [''path'' \<mapsto> JString ''/src/a.ts'']],
      mkToolResult ''call-1'' False,
      mkAssistant [mkToolCallBlock ''call-2'' ''edit'' [''path'' \<mapsto> JString ''/src/a.ts'']],
      mkToolResult ''call-2'' True]) = [''/src/a.ts'']
   \<and> msg_role (mkToolResult ''call-2'' True) = Some ''toolResult''
   \<and> msg_isError (mkToolResult ''call-2'' True) = Some True"
proof -
  let ?xs = "[mkAssistant [mkToolCallBlock ''call-1'' ''write'' [''path'' \<mapsto> JString ''/src/a.ts'']],
      mkToolResult ''call-1'' False,
      mkAssistant [mkToolCallBlock ''call-2'' ''edit'' [''path'' \<mapsto> JString ''/src/a.ts'']]]"
  have r: "msg_role (mkToolResult ''call-2'' True) = Some ''toolResult''"
    by (simp add: mkToolResult_def)
  have e: "msg_isError (mkToolResult ''call-2'' True) = Some True"
    by (simp add: mkToolResult_def)
  have "detectFileOpsFromConversation (?xs @ mkToolResult ''call-2'' True # [])
        = detectFileOpsFromConversation (?xs @ [])"
    using detectFileOps_modifiedFiles [of _ "mkToolResult ''call-2'' True" ?xs "[]"] r e
    by blast
  then have same: "detectFileOpsFromConversation (?xs @ [mkToolResult ''call-2'' True])
        = detectFileOpsFromConversation ?xs"
    by simp
  have "modifiedFiles (detectFileOpsFromConversation ?xs) = [''/src/a.ts'']"
    by code_simp
  with same r e show ?thesis by simp
qed

text \<open>
  C2 as stated takes the \<open>path\<close> arguments as they are. The code trims them: for a
  successful \<open>write\<close> whose \<open>path\<close> argument is \<^verbatim>\<open>" /src/a.ts"\<close> (with a leading blank), the
  deduplicated list of the path arguments is \<^verbatim>\<open>[" /src/a.ts"]\<close>, while \<^verbatim>\<open>modifiedFiles\<close>
  is \<^verbatim>\<open>["/src/a.ts"]\<close>. And the conversation of the scenario, taken as one user message
  and one assistant message with the \<open>write\<close> call and nothing else, has no tool-result
  message to take a path from: its \<^verbatim>\<open>modifiedFiles\<close> is empty.
\<close>

theorem detectFileOps_untrimmed_counterexample:
  "modifiedFiles (detectFileOpsFromConversation
     [mkAssistant [mkToolCallBlock ''call-1'' ''write'' [''path'' \<mapsto> JString '' /src/a.ts'']],
      mkToolResult ''call-1'' False]) = [''/src/a.ts'']
   \<and> rev (remdups (rev (List.map_filter
       (claimedPath (extractToolCallsFromMessages
          [mkAssistant [mkToolCallBlock ''call-1'' ''write'' [''path'' \<mapsto> JString '' /src/a.ts'']],
           mkToolResult ''call-1'' False]))
       [mkAssistant [mkToolCallBlock ''call-1'' ''write'' [''path'' \<mapsto> JString '' /src/a.ts'']],
        mkToolResult ''call-1'' False]))) = ['' /src/a.ts'']
   \<and> detectFileOpsFromConversation
       [mkUser ''add a file'',
        mkAssistant [mkToolCallBlock ''call-1'' ''write'' [''path'' \<mapsto> JString ''/src/a.ts'']]]
      = \<lparr>modifiedFiles = [], deletedFiles = []\<rparr>"
proof -
  have c: "detectFileOpsFromConversation
       [mkUser ''add a file'',
        mkAssistant [mkToolCallBlock ''call-1'' ''write'' [''path'' \<mapsto> JString ''/src/a.ts'']]]
      = \<lparr>modifiedFiles = [], deletedFiles = []\<rparr>"
    by code_simp
  have a: "modifiedFiles (detectFileOpsFromConversation
     [mkAssistant [mkToolCallBlock ''call-1'' ''write'' [''path'' \<mapsto> JString '' /src/a.ts'']],
      mkToolResult ''call-1'' False]) = [''/src/a.ts'']"
    by code_simp
  have b: "rev (remdups (rev (List.map_filter
       (claimedPath (extractToolCallsFromMessages
          [mkAssistant [mkToolCallBlock ''call-1'' ''write'' [''path'' \<mapsto> JString '' /src/a.ts'']],
           mkToolResult ''call-1'' False]))
       [mkAssistant [mkToolCallBlock ''call-1'' ''write'' [''path'' \<mapsto> JString '' /src/a.ts'']],
        mkToolResult ''call-1'' False]))) = ['' /src/a.ts'']"
    by code_simp
  from a b c show ?thesis by blast
qed

section \<open>Claim C3: when the loop is done\<close>



section \<open>Claim C4: tool results in call order\<close>

section \<open>Claim C5: cancellation\<close>



section \<open>Claim C6: model selection\<close>

text \<open>
  C6, as amended. \<^verbatim>\<open>selectCompactionModel\<close> goes through the configured candidates in
  their order and returns the first one that has a registered model with its provider
  and id and a credential that is present \<^emph>\<open>and not the empty string\<close>, with the
  candidate's thinking level or else the configured default; if there is none, it
  returns the session-default model when one is given and its credential is present and
  not empty, with the configured default thinking level; otherwise it returns "no usable
  model", in particular for an empty candidate list and no session default.
\<close>

theorem selectCompactionModel_first_usable:
  "selectCompactionModel config reg sessionModel =
     (case find (usableCandidate reg) (compactionModels config) of
        Some c \<Rightarrow> candidateSelection config reg c
      | None \<Rightarrow> sessionSelection config reg sessionModel)
   \<and> (\<forall>c. find (usableCandidate reg) (compactionModels config) = Some c
          \<longrightarrow> candidateSelection config reg c \<noteq> None)
   \<and> (sessionSelection config reg sessionModel \<noteq> None
          \<longleftrightarrow> (\<exists>sm. sessionModel = Some sm \<and> hasCredential reg sm))
   \<and> selectCompactionModel (config\<lparr>compactionModels := []\<rparr>) reg None = None"
proof -
  have a: "selectCompactionModel config reg sessionModel =
     (case find (usableCandidate reg) (compactionModels config) of
        Some c \<Rightarrow> candidateSelection config reg c
      | None \<Rightarrow> sessionSelection config reg sessionModel)"
  proof (cases "find (usableCandidate reg) (compactionModels config)")
    case None
    then show ?thesis
      by (simp add: selectCompactionModel_def candidateLoop_find session_fallback)
  next
    case (Some c)
    then have "usableCandidate reg c" by (metis find_Some_iff)
    then obtain s where "candidateSelection config reg c = Some s"
      using usable_selection by blast
    with Some show ?thesis
      by (simp add: selectCompactionModel_def candidateLoop_find)
  qed
  have b: "\<forall>c. find (usableCandidate reg) (compactionModels config) = Some c
          \<longrightarrow> candidateSelection config reg c \<noteq> None"
    by (metis find_Some_iff usable_selection)
  have c: "sessionSelection config reg sessionModel \<noteq> None
          \<longleftrightarrow> (\<exists>sm. sessionModel = Some sm \<and> hasCredential reg sm)"
    by (auto simp: sessionSelection_def hasCredential_def split: option.splits)
  have d: "selectCompactionModel (config\<lparr>compactionModels := []\<rparr>) reg None = None"
    by (simp add: selectCompactionModel_def)
  from a b c d show ?thesis by blast
qed

theorem selectCompactionModel_first_usable_witness:
  "selectCompactionModel sampleConfig (sampleRegistry '''' ''sk-ant'') None =
     Some \<lparr>sel_model = \<lparr>model_provider = ''anthropic'', model_id = ''claude-haiku-4-5'',
                         model_name = ''Haiku''\<rparr>,
           sel_apiKey = ''sk-ant'', sel_thinkingLevel = Low\<rparr>
   \<and> find (usableCandidate (sampleRegistry '''' ''sk-ant'')) (compactionModels sampleConfig) =
       Some \<lparr>cm_provider = ''anthropic'', cm_id = ''claude-haiku-4-5'', cm_thinkingLevel = Some Low\<rparr>"
proof -
  have f: "find (usableCandidate (sampleRegistry '''' ''sk-ant'')) (compactionModels sampleConfig) =
       Some \<lparr>cm_provider = ''anthropic'', cm_id = ''claude-haiku-4-5'', cm_thinkingLevel = Some Low\<rparr>"
    by code_simp
  have s: "candidateSelection sampleConfig (sampleRegistry '''' ''sk-ant'')
       \<lparr>cm_provider = ''anthropic'', cm_id = ''claude-haiku-4-5'', cm_thinkingLevel = Some Low\<rparr> =
     Some \<lparr>sel_model = \<lparr>model_provider = ''anthropic'', model_id = ''claude-haiku-4-5'',
                         model_name = ''Haiku''\<rparr>,
           sel_apiKey = ''sk-ant'', sel_thinkingLevel = Low\<rparr>"
    by code_simp
  show ?thesis
    using selectCompactionModel_first_usable
      [of sampleConfig "sampleRegistry '''' ''sk-ant''" None] f s
    by simp
qed

text \<open>
  C6 as stated asks for a credential that is not absent. When the registry resolves the
  key of the first candidate's registered model to the empty string, the credential is
  not absent, yet the candidate is passed over; here no other candidate is usable and
  the result is "no usable model".
\<close>

theorem selectCompactionModel_empty_key_counterexample:
  "selectCompactionModel sampleConfig (sampleRegistry '''' '''') None = None
   \<and> registeredModel (sampleRegistry '''' '''')
        \<lparr>cm_provider = ''cerebras'', cm_id = ''qwen-3-32b'', cm_thinkingLevel = None\<rparr>
       = Some \<lparr>model_provider = ''cerebras'', model_id = ''qwen-3-32b'', model_name = ''Qwen''\<rparr>
   \<and> getApiKey (sampleRegistry '''' '''')
        \<lparr>model_provider = ''cerebras'', model_id = ''qwen-3-32b'', model_name = ''Qwen''\<rparr>
       = Some ''''
   \<and> hd (compactionModels sampleConfig)
       = \<lparr>cm_provider = ''cerebras'', cm_id = ''qwen-3-32b'', cm_thinkingLevel = None\<rparr>"
proof -
  have a: "selectCompactionModel sampleConfig (sampleRegistry '''' '''') None = None"
    by code_simp
  have b: "registeredModel (sampleRegistry '''' '''')
        \<lparr>cm_provider = ''cerebras'', cm_id = ''qwen-3-32b'', cm_thinkingLevel = None\<rparr>
       = Some \<lparr>model_provider = ''cerebras'', model_id = ''qwen-3-32b'', model_name = ''Qwen''\<rparr>"
    by code_simp
  have c: "getApiKey (sampleRegistry '''' '''')
        \<lparr>model_provider = ''cerebras'', model_id = ''qwen-3-32b'', model_name = ''Qwen''\<rparr>
       = Some ''''"
    by (simp add: sampleRegistry_def)
  have d: "hd (compactionModels sampleConfig)
       = \<lparr>cm_provider = ''cerebras'', cm_id = ''qwen-3-32b'', cm_thinkingLevel = None\<rparr>"
    by (simp add: sampleConfig_def)
  from a b c d show ?thesis by blast
qed

section \<open>Claim C7: the user's compaction note\<close>

text \<open>
  C7, as amended. \<^verbatim>\<open>extractUserCompactionNote\<close> scans the user-authored messages from the
  most recent to the oldest and takes the first whose trimmed text is a compact command:
  it starts with \<open>/compact\<close> in any letter case \<^emph>\<open>and the command word ends there\<close> (end of
  text, or a next code unit that is not a letter, digit or underscore). The note is the
  trimmed remainder; if it is empty the result is "no note" at once, whatever earlier
  messages hold; if no message is a compact command the result is "no note".
\<close>

theorem extractUserCompactionNote_most_recent_command:
  "extractUserCompactionNote msgs =
     (case find (\<lambda>m. compactCommandText (messageText m))
              (rev (filter (\<lambda>m. msg_role m = Some ''user'') msgs)) of
        None \<Rightarrow> None
      | Some m \<Rightarrow> noteOf m)
   \<and> (msg_role m = Some ''user'' \<and> compactCommandText (messageText m)
        \<and> (\<forall>l\<in>set later. msg_role l = Some ''user'' \<longrightarrow> \<not> compactCommandText (messageText l))
        \<longrightarrow> extractUserCompactionNote (earlier @ m # later) = noteOf m)
   \<and> ((\<forall>l\<in>set msgs. msg_role l = Some ''user'' \<longrightarrow> \<not> compactCommandText (messageText l))
        \<longrightarrow> extractUserCompactionNote msgs = None)"
proof -
  have main: "\<And>xs. extractUserCompactionNote xs =
     (case find (\<lambda>m. compactCommandText (messageText m))
              (rev (filter (\<lambda>m. msg_role m = Some ''user'') xs)) of
        None \<Rightarrow> None
      | Some m \<Rightarrow> noteOf m)"
    by (simp add: extractUserCompactionNote_def noteLoop_find)
  have recent: "extractUserCompactionNote (earlier @ m # later) = noteOf m"
    if u: "msg_role m = Some ''user''" and c: "compactCommandText (messageText m)"
      and l: "\<forall>l\<in>set later. msg_role l = Some ''user'' \<longrightarrow> \<not> compactCommandText (messageText l)"
  proof -
    have "find (\<lambda>m. compactCommandText (messageText m))
            (rev (filter (\<lambda>m. msg_role m = Some ''user'') later)) = None"
      using l by (intro find_none) auto
    then show ?thesis using u c
      by (simp add: main find_append_none)
  qed
  have none: "extractUserCompactionNote msgs = None"
    if "\<forall>l\<in>set msgs. msg_role l = Some ''user'' \<longrightarrow> \<not> compactCommandText (messageText l)"
  proof -
    have "find (\<lambda>m. compactCommandText (messageText m))
            (rev (filter (\<lambda>m. msg_role m = Some ''user'') msgs)) = None"
      using that by (intro find_none) auto
    then show ?thesis by (simp add: main)
  qed
  from main [of msgs] recent none show ?thesis by blast
qed

theorem extractUserCompactionNote_most_recent_command_witness:
  "extractUserCompactionNote
     ([mkUser ''/compact keep the API notes''] @
        mkUser ''/COMPACT   '' # [mkUser ''thanks'']) = None
   \<and> compactCommandText (messageText (mkUser ''/COMPACT   ''))
   \<and> noteOf (mkUser ''/COMPACT   '') = None
   \<and> noteOf (mkUser ''/compact keep the API notes'') = Some ''keep the API notes''
   \<and> \<not> compactCommandText (messageText (mkUser ''thanks''))"
proof -
  have u: "msg_role (mkUser ''/COMPACT   '') = Some ''user''"
    by (simp add: mkUser_def)
  have c: "compactCommandText (messageText (mkUser ''/COMPACT   ''))"
    by code_simp
  have n: "noteOf (mkUser ''/COMPACT   '') = None"
    by code_simp
  have o: "noteOf (mkUser ''/compact keep the API notes'') = Some ''keep the API notes''"
    by code_simp
  have t: "\<not> compactCommandText (messageText (mkUser ''thanks''))"
    by code_simp
  then have l: "\<forall>l\<in>set [mkUser ''thanks''].
      msg_role l = Some ''user'' \<longrightarrow> \<not> compactCommandText (messageText l)"
    by simp
  have "extractUserCompactionNote
     ([mkUser ''/compact keep the API notes''] @
        mkUser ''/COMPACT   '' # [mkUser ''thanks''])
     = noteOf (mkUser ''/COMPACT   '')"
    using extractUserCompactionNote_most_recent_command
      [of _ "mkUser ''/COMPACT   ''" "[mkUser ''thanks'']"
          "[mkUser ''/compact keep the API notes'']"] u c l
    by blast
  with c n o t show ?thesis by simp
qed

text \<open>
  C7 as stated asks for the prefix \<open>/compact\<close>, optional white space and a remainder. The
  text \<^verbatim>\<open>/compaction notes\<close> has that form, with remainder \<^verbatim>\<open>ion notes\<close>, but it is not a
  compact command for the code (the word goes on after \<open>/compact\<close>): alone it gives no
  note, and after an older command the older note is returned.
\<close>

theorem extractUserCompactionNote_prefix_counterexample:
  "extractUserCompactionNote [mkUser ''/compaction notes''] = None
   \<and> extractUserCompactionNote
       [mkUser ''/compact keep the API notes'', mkUser ''/compaction notes'']
       = Some ''keep the API notes''
   \<and> toLowerCase (take 8 (trim (messageText (mkUser ''/compaction notes'')))) = ''/compact''
   \<and> trim (drop 8 (trim (messageText (mkUser ''/compaction notes'')))) = ''ion notes''"
proof -
  have a: "extractUserCompactionNote [mkUser ''/compaction notes''] = None"
    by code_simp
  have b: "extractUserCompactionNote
       [mkUser ''/compact keep the API notes'', mkUser ''/compaction notes'']
       = Some ''keep the API notes''"
    by code_simp
  have c: "toLowerCase (take 8 (trim (messageText (mkUser ''/compaction notes'')))) = ''/compact''"
    by code_simp
  have d: "trim (drop 8 (trim (messageText (mkUser ''/compaction notes'')))) = ''ion notes''"
    by code_simp
  from a b c d show ?thesis by blast
qed

section \<open>Claim C8: the result of one tool call\<close>

text \<open>
  C8 holds on the path where the interpreter returns (lemma \<open>executeSingleToolCall_completed\<close>:
  the output is cut to \<^verbatim>\<open>toolResultMaxChars\<close> after the exit-code marker is appended, and a
  non-zero exit code sets the error flag), and for a call that has an \<^verbatim>\<open>arguments\<close> value
  to destructure no path raises (lemma \<open>executeSingleToolCall_returns\<close>; without one,
  line 728 throws before the \<^verbatim>\<open>try\<close>, lemma \<open>executeSingleToolCall_rejects\<close>): a value the
  interpreter throws becomes a result with the error flag (lemma
  \<open>executeSingleToolCall_thrown\<close>). But the text built in the \<^verbatim>\<open>catch\<close> block is returned as
  it is. With \<^verbatim>\<open>toolResultMaxChars\<close> set to 20 and an interpreter that throws an \<^verbatim>\<open>Error\<close>,
  the returned text has 31 code units; the same call with an interpreter that prints the
  same text and exits with 1 is cut to 20.
\<close>

theorem executeSingleToolCall_thrown_not_truncated:
  "executeSingleToolCall (sampleConfig\<lparr>toolResultMaxChars := Num 20\<rparr>)
      (\<lambda>files command. Inl (ErrorObject ''execution limit exceeded''))
      \<lparr>tcc_id = Some (JString ''call-1''), tcc_name = Some (JString ''bash''),
       tcc_arguments = Some [''command'' \<mapsto> JString ''cat /conversation.json'']\<rparr>
      Map.empty
    = Inr \<lparr>result = ''Error: execution limit exceeded'', isError = True\<rparr>
   \<and> length ''Error: execution limit exceeded'' = 31
   \<and> executeSingleToolCall (sampleConfig\<lparr>toolResultMaxChars := Num 20\<rparr>)
      (\<lambda>files command.
          Inr \<lparr>stdout = ''execution limit exceeded'', stderr = [], exitCode = 1\<rparr>)
      \<lparr>tcc_id = Some (JString ''call-1''), tcc_name = Some (JString ''bash''),
       tcc_arguments = Some [''command'' \<mapsto> JString ''cat /conversation.json'']\<rparr>
      Map.empty
    = Inr \<lparr>result = ''execution limit exce'', isError = True\<rparr>"
  by (simp add: executeSingleToolCall_def commandOf_def Let_def sampleConfig_def truncateReal_def)
section \<open>Claim C9: temp-artifact classification\<close>

text \<open>
  C9, as amended. The classification looks at the base name of the \<^emph>\<open>trimmed\<close> path:
  a path is a temp artifact exactly when its trimmed form is not empty and the
  lower-cased base name of the trimmed form starts with \<open>__tmp\<close>, ends with \<open>.tmp\<close> or
  contains \<open>.tmp.\<close>. An empty or white-space-only path is never a temp artifact, two
  paths that differ only in letter case are classified alike, and the four sample paths
  of the specification are classified as it says, in either case.
\<close>

theorem isLikelyTempArtifactPath_trimmed_basename:
  "(isLikelyTempArtifactPath p \<longleftrightarrow>
      trim p \<noteq> [] \<and>
      (prefix ''__tmp'' (toLowerCase (basename (trim p))) \<or>
       suffix ''.tmp'' (toLowerCase (basename (trim p))) \<or>
       sublist ''.tmp.'' (toLowerCase (basename (trim p)))))
   \<and> ((\<forall>c\<in>set p. isJsWhitespace c) \<longrightarrow> \<not> isLikelyTempArtifactPath p)
   \<and> (toLowerCase p = toLowerCase q \<longrightarrow>
         isLikelyTempArtifactPath p = isLikelyTempArtifactPath q)
   \<and> \<not> isLikelyTempArtifactPath ''''
   \<and> isLikelyTempArtifactPath ''file.tmp''
   \<and> isLikelyTempArtifactPath ''__tmp_x''
   \<and> isLikelyTempArtifactPath ''a.tmp.bak''
   \<and> isLikelyTempArtifactPath ''FILE.TMP''
   \<and> isLikelyTempArtifactPath ''__TMP_x''
   \<and> isLikelyTempArtifactPath ''a.TMP.bak''"
proof -
  have main: "isLikelyTempArtifactPath p \<longleftrightarrow>
      trim p \<noteq> [] \<and>
      (prefix ''__tmp'' (toLowerCase (basename (trim p))) \<or>
       suffix ''.tmp'' (toLowerCase (basename (trim p))) \<or>
       sublist ''.tmp.'' (toLowerCase (basename (trim p))))"
    by (simp add: isLikelyTempArtifactPath_def Let_def startsWith_prefix endsWith_suffix
        includes_str_sublist)
  have blank: "(\<forall>c\<in>set p. isJsWhitespace c) \<longrightarrow> \<not> isLikelyTempArtifactPath p"
    by (simp add: isLikelyTempArtifactPath_def trim_blank)
  have fold: "toLowerCase p = toLowerCase q \<longrightarrow>
         isLikelyTempArtifactPath p = isLikelyTempArtifactPath q"
    by (metis isLikelyTempArtifactPath_lower)
  have e0: "\<not> isLikelyTempArtifactPath ''''"
    by (simp add: isLikelyTempArtifactPath_def trim_def)
  have e1: "isLikelyTempArtifactPath ''file.tmp''" by code_simp
  have e2: "isLikelyTempArtifactPath ''__tmp_x''" by code_simp
  have e3: "isLikelyTempArtifactPath ''a.tmp.bak''" by code_simp
  have e4: "isLikelyTempArtifactPath ''FILE.TMP''" by code_simp
  have e5: "isLikelyTempArtifactPath ''__TMP_x''" by code_simp
  have e6: "isLikelyTempArtifactPath ''a.TMP.bak''" by code_simp
  from main blank fold e0 e1 e2 e3 e4 e5 e6 show ?thesis by blast
qed

theorem isLikelyTempArtifactPath_trimmed_basename_witness:
  "isLikelyTempArtifactPath '' /tmp/Build/__TMP_out.js ''
   \<and> trim '' /tmp/Build/__TMP_out.js '' = ''/tmp/Build/__TMP_out.js''
   \<and> toLowerCase (basename ''/tmp/Build/__TMP_out.js'') = ''__tmp_out.js''
   \<and> \<not> isLikelyTempArtifactPath [CHR 0x20, CHR 0x09]"
proof -
  have t: "trim '' /tmp/Build/__TMP_out.js '' = ''/tmp/Build/__TMP_out.js''"
    by code_simp
  have b: "toLowerCase (basename ''/tmp/Build/__TMP_out.js'') = ''__tmp_out.js''"
    by code_simp
  have ws: "\<forall>c\<in>set [CHR 0x20, CHR 0x09]. isJsWhitespace c"
    by (simp add: isJsWhitespace_def)
  have "prefix ''__tmp'' ''__tmp_out.js''" by simp
  with t b have "isLikelyTempArtifactPath '' /tmp/Build/__TMP_out.js ''"
    using isLikelyTempArtifactPath_trimmed_basename [of "'' /tmp/Build/__TMP_out.js ''"]
    by simp
  moreover have "\<not> isLikelyTempArtifactPath [CHR 0x20, CHR 0x09]"
    using isLikelyTempArtifactPath_trimmed_basename [of "[CHR 0x20, CHR 0x09]"] ws
    by blast
  ultimately show ?thesis using t b by blast
qed

text \<open>
  C9 as stated takes the base name of the path itself. With a leading blank the two
  differ: \<^verbatim>\<open>" __tmp_x"\<close> is classified as a temp artifact, while the lower-cased base name
  of the untrimmed path, \<^verbatim>\<open>" __tmp_x"\<close>, neither starts with \<open>__tmp\<close>, nor ends with
  \<open>.tmp\<close>, nor contains \<open>.tmp.\<close>.
\<close>

theorem isLikelyTempArtifactPath_untrimmed_counterexample:
  "isLikelyTempArtifactPath '' __tmp_x''
   \<and> toLowerCase (basename '' __tmp_x'') = '' __tmp_x''
   \<and> \<not> prefix ''__tmp'' '' __tmp_x''
   \<and> \<not> suffix ''.tmp'' '' __tmp_x''
   \<and> \<not> sublist ''.tmp.'' '' __tmp_x''"
proof -
  have a: "isLikelyTempArtifactPath '' __tmp_x''" by code_simp
  have b: "toLowerCase (basename '' __tmp_x'') = '' __tmp_x''" by code_simp
  have c: "\<not> prefix ''__tmp'' '' __tmp_x''" by simp
  have d: "\<not> suffix ''.tmp'' '' __tmp_x''" by (simp add: endsWith_suffix [symmetric] endsWith_def)
  have e: "\<not> sublist ''.tmp.'' '' __tmp_x''"
    by (simp add: includes_str_sublist [symmetric] startsWith_def)
  from a b c d e show ?thesis by blast
qed

section \<open>Claim C10: no deleted files\<close>

text \<open>
  C10. For every conversation \<^verbatim>\<open>deletedFiles\<close> is empty: nothing is pushed to the array of
  deleted paths. The removal of deleted paths from \<^verbatim>\<open>modifiedFiles\<close> therefore removes
  nothing (the modified files are the unique collected paths themselves), and the two
  lists have no path in common.
\<close>

theorem detectFileOps_deletedFiles_empty:
  "deletedFiles (detectFileOpsFromConversation msgs) = []
   \<and> modifiedFiles (detectFileOpsFromConversation msgs)
       = uniqStrings (collectModified (extractToolCallsFromMessages msgs) msgs [])
   \<and> set (modifiedFiles (detectFileOpsFromConversation msgs))
       \<inter> set (deletedFiles (detectFileOpsFromConversation msgs)) = {}"
  by (simp add: deletedFiles_empty modifiedFiles_uniq)

theorem detectFileOps_deletedFiles_empty_witness:
  "deletedFiles (detectFileOpsFromConversation
     [mkAssistant [mkToolCallBlock ''call-1'' ''bash'' [''command'' \<mapsto> JString ''rm /src/a.ts'']],
      mkToolResult ''call-1'' False]) = []"
  using detectFileOps_deletedFiles_empty
    [of "[mkAssistant [mkToolCallBlock ''call-1'' ''bash'' [''command'' \<mapsto> JString ''rm /src/a.ts'']],
          mkToolResult ''call-1'' False]"]
  by simp

end
